theory Spec2Isabelle
  imports Main
begin

section \<open>brainfuck2c: a Brainfuck to C transpiler\<close>

text \<open>
  A shallow embedding of \<^verbatim>\<open>src/brainfuck2c.c\<close>: the lexer \<^verbatim>\<open>lex\<close>, the recursive
  parser \<^verbatim>\<open>parseLevel\<close> / \<^verbatim>\<open>parseTokens\<close>, the generator \<^verbatim>\<open>generate_code\<close> and the
  driver \<^verbatim>\<open>main\<close>.

  Conventions of the model.
  \<^item> A C array together with its element count is a list; the capacity of the growable
    arrays (doubling on demand) is not part of the model, and \<^verbatim>\<open>malloc\<close>/\<^verbatim>\<open>realloc\<close> are
    taken to succeed.
  \<^item> A C \<^verbatim>\<open>int\<close> has 32 bits. The values stored in tokens and nodes (\<^verbatim>\<open>pos\<close>,
    \<^verbatim>\<open>count\<close>, \<^verbatim>\<open>numChildren\<close>) are of type \<^typ>\<open>int\<close>; array indices are of type
    \<^typ>\<open>nat\<close>. The byte counter of the lexer can leave the range of a C \<^verbatim>\<open>int\<close>, and
    is wrapped into it after every increment. The counts and indices of the parser are
    bounded by \<^verbatim>\<open>numTokens\<close>, which is a C \<^verbatim>\<open>int\<close>.
  \<^item> \<^verbatim>\<open>exit(EXIT_FAILURE)\<close> inside the parser is the \<open>Inl\<close> branch of a sum type, which
    every caller passes on unchanged.
  \<^item> The standard streams are strings that the run returns together with the exit status.
\<close>

subsection \<open>Lexer phase\<close>

datatype TokenType =
    TOKEN_PLUS
  | TOKEN_MINUS
  | TOKEN_NEXT
  | TOKEN_PREVIOUS
  | TOKEN_OUTPUT
  | TOKEN_INPUT
  | TOKEN_LOOP_START
  | TOKEN_LOOP_END

record Token =
  type :: TokenType
  pos :: int

text \<open>The \<^verbatim>\<open>switch\<close> of \<^verbatim>\<open>lex\<close>; \<open>None\<close> is the \<^verbatim>\<open>default: continue\<close> branch.\<close>

definition classify :: "char \<Rightarrow> TokenType option" where
  "classify c =
     (if c = CHR ''+'' then Some TOKEN_PLUS
      else if c = CHR ''-'' then Some TOKEN_MINUS
      else if c = CHR ''>'' then Some TOKEN_NEXT
      else if c = CHR ''<'' then Some TOKEN_PREVIOUS
      else if c = CHR ''.'' then Some TOKEN_OUTPUT
      else if c = CHR '','' then Some TOKEN_INPUT
      else if c = CHR ''['' then Some TOKEN_LOOP_START
      else if c = CHR '']'' then Some TOKEN_LOOP_END
      else None)"

text \<open>
  The value that a 32-bit two's complement \<^verbatim>\<open>int\<close> holds for the arithmetic result \<open>k\<close>:
  \<open>k\<close> itself from \<open>-2^31\<close> up to \<open>2^31 - 1\<close>, and \<open>k\<close> wrapped around outside.
\<close>

definition int32 :: "int \<Rightarrow> int" where
  "int32 k = (k + 2147483648) mod 4294967296 - 2147483648"

text \<open>
  The \<^verbatim>\<open>for (int i = 0; src[i] != '\0'; i++)\<close> loop. The first argument is the counter
  \<open>i\<close>, the second the bytes of the buffer that are still to be read. The buffer ends with
  the terminator that \<^verbatim>\<open>main\<close> stores behind the bytes read, so the loop stops at the end
  of the list or at the first zero byte, whichever comes first. The counter is a C
  \<^verbatim>\<open>int\<close>: \<^verbatim>\<open>i++\<close> at \<open>2^31 - 1\<close> overflows, which C leaves undefined; the model wraps
  the counter, as the usual machines do, and goes on through the buffer.
\<close>

fun lex_from :: "int \<Rightarrow> string \<Rightarrow> Token list" where
  "lex_from i [] = []"
| "lex_from i (c # cs) =
     (if c = CHR 0x00 then []
      else (case classify c of
              None \<Rightarrow> lex_from (int32 (i + 1)) cs
            | Some t \<Rightarrow> \<lparr>type = t, pos = i\<rparr> # lex_from (int32 (i + 1)) cs))"

text \<open>
  \<^verbatim>\<open>lex\<close>, called \<open>lex_src\<close> here because \<open>lex\<close> is a constant of the list library.
\<close>

definition lex_src :: "string \<Rightarrow> Token list" where
  "lex_src src = lex_from 0 src"

subsection \<open>Parser phase\<close>

text \<open>
  \<^verbatim>\<open>struct ASTNode\<close>. The pointer \<^verbatim>\<open>children\<close> is \<open>None\<close> when it is \<^verbatim>\<open>NULL\<close> and
  \<open>Some cs\<close> when it points to an array holding the nodes \<open>cs\<close>.
\<close>

datatype ASTNode =
  ASTNode (ntype: TokenType) (count: int) (children: "ASTNode list option") (numChildren: int)

datatype error =
    UnmatchedClose int
  | UnmatchedOpen

text \<open>
  The inner loop of \<^verbatim>\<open>parseLevel\<close> that merges a run:
  \<^verbatim>\<open>while (*index < numTokens && tokens[*index].type == type) { repeat++; (*index)++; }\<close>.
  It returns the final \<open>repeat\<close> and \<open>index\<close>.
\<close>

function merge_run :: "Token list \<Rightarrow> nat \<Rightarrow> TokenType \<Rightarrow> int \<Rightarrow> int \<times> nat" where
  "merge_run tokens index t repeat =
     (if index < length tokens \<and> type (tokens ! index) = t
      then merge_run tokens (index + 1) t (repeat + 1)
      else (repeat, index))"
  by pat_completeness auto
termination
  by (relation "measure (\<lambda>(tokens, index, t, repeat). length tokens - index)") auto

declare merge_run.simps [simp del]

definition is_primitive :: "TokenType \<Rightarrow> bool" where
  "is_primitive t \<longleftrightarrow>
     t = TOKEN_PLUS \<or> t = TOKEN_MINUS \<or> t = TOKEN_NEXT \<or> t = TOKEN_PREVIOUS \<or>
     t = TOKEN_OUTPUT \<or> t = TOKEN_INPUT"

text \<open>
  The \<^verbatim>\<open>while (*index < numTokens)\<close> loop of \<^verbatim>\<open>parseLevel\<close>, with the state it works on:
  the shared \<open>index\<close> and the array \<open>nodes\<close> of this level (its \<open>count\<close> is the length of
  the list). \<open>numTokens\<close> is the length of \<open>tokens\<close>. The result is the error of an
  \<^verbatim>\<open>exit\<close>, or the nodes of the level and the index behind the tokens consumed.
\<close>

function parseLevel_while ::
  "Token list \<Rightarrow> nat \<Rightarrow> ASTNode list \<Rightarrow> bool \<Rightarrow> error + (ASTNode list \<times> nat)" where
  "parseLevel_while tokens index nodes insideLoop =
     (if index < length tokens then
        (let current = tokens ! index in
         if type current = TOKEN_LOOP_END then
           (if \<not> insideLoop then Inl (UnmatchedClose (pos current))
            else Inr (nodes, index + 1))
         else if type current = TOKEN_LOOP_START then
           (case parseLevel_while tokens (index + 1) [] True of
              Inl e \<Rightarrow> Inl e
            | Inr (children', index') \<Rightarrow>
                parseLevel_while tokens index'
                  (nodes @ [ASTNode TOKEN_LOOP_START 0 (Some children') (int (length children'))])
                  insideLoop)
         else if is_primitive (type current) then
           (case merge_run tokens index (type current) 0 of
              (repeat, index') \<Rightarrow>
                parseLevel_while tokens index'
                  (nodes @ [ASTNode (type current) repeat None 0]) insideLoop)
         else parseLevel_while tokens (index + 1) nodes insideLoop)
      else if insideLoop then Inl UnmatchedOpen
      else Inr (nodes, index))"
  by pat_completeness auto

lemma merge_run_index_mono: "index \<le> snd (merge_run tokens index t repeat)"
proof (induction tokens index t repeat rule: merge_run.induct)
  case (1 tokens index t repeat)
  show ?case
  proof (cases "index < length tokens \<and> type (tokens ! index) = t")
    case True
    with "1.IH" have "index + 1 \<le> snd (merge_run tokens (index + 1) t (repeat + 1))"
      by simp
    with True show ?thesis
      by (subst merge_run.simps) simp
  next
    case False
    then show ?thesis
      by (subst merge_run.simps) auto
  qed
qed

lemma merge_run_index_advance:
  assumes "index < length tokens" and "type (tokens ! index) = t"
  shows "index < snd (merge_run tokens index t repeat)"
proof -
  have "merge_run tokens index t repeat = merge_run tokens (index + 1) t (repeat + 1)"
    using assms by (subst merge_run.simps) simp
  moreover have "index + 1 \<le> snd (merge_run tokens (index + 1) t (repeat + 1))"
    by (rule merge_run_index_mono)
  ultimately show ?thesis by simp
qed

lemma parseLevel_while_index_mono_dom:
  assumes "parseLevel_while_dom (tokens, index, nodes, insideLoop)"
    and "parseLevel_while tokens index nodes insideLoop = Inr (nodes', index')"
  shows "index \<le> index'"
  using assms
proof (induction arbitrary: nodes' index' rule: parseLevel_while.pinduct)
  case (1 tokens index nodes insideLoop)
  note dom = "1.hyps"
  note res = "1.prems"
  show ?case
  proof (cases "index < length tokens")
    case False
    with res dom show ?thesis
      by (auto simp: parseLevel_while.psimps split: if_splits)
  next
    case True
    let ?cur = "tokens ! index"
    consider (close) "type ?cur = TOKEN_LOOP_END"
      | (opn) "type ?cur = TOKEN_LOOP_START"
      | (prim) "type ?cur \<noteq> TOKEN_LOOP_END" "type ?cur \<noteq> TOKEN_LOOP_START"
          "is_primitive (type ?cur)"
      | (other) "type ?cur \<noteq> TOKEN_LOOP_END" "type ?cur \<noteq> TOKEN_LOOP_START"
          "\<not> is_primitive (type ?cur)"
      by blast
    then show ?thesis
    proof cases
      case close
      with True res dom show ?thesis
        by (auto simp: parseLevel_while.psimps split: if_splits)
    next
      case opn
      from True opn res dom obtain cs j where
        inner: "parseLevel_while tokens (index + 1) [] True = Inr (cs, j)" and
        outer: "parseLevel_while tokens j
                  (nodes @ [ASTNode TOKEN_LOOP_START 0 (Some cs) (int (length cs))]) insideLoop
                = Inr (nodes', index')"
        by (auto simp: parseLevel_while.psimps split: sum.splits)
      from opn have ne: "type ?cur \<noteq> TOKEN_LOOP_END" by simp
      from "1.IH"(1)[OF True refl ne opn inner] have "index + 1 \<le> j" .
      moreover from "1.IH"(2)[OF True refl ne opn inner refl outer] have "j \<le> index'" .
      ultimately show ?thesis by simp
    next
      case prim
      obtain r j where mr: "merge_run tokens index (type ?cur) 0 = (r, j)"
        by (cases "merge_run tokens index (type ?cur) 0")
      from True prim res dom mr have
        outer: "parseLevel_while tokens j (nodes @ [ASTNode (type ?cur) r None 0]) insideLoop
                = Inr (nodes', index')"
        by (simp add: parseLevel_while.psimps)
      from "1.IH"(3)[OF True refl prim(1) prim(2) prim(3) mr[symmetric] outer]
      have "j \<le> index'" .
      moreover from merge_run_index_mono[of index tokens "type ?cur" 0] mr have "index \<le> j"
        by simp
      ultimately show ?thesis by simp
    next
      case other
      from True other res dom have
        outer: "parseLevel_while tokens (index + 1) nodes insideLoop = Inr (nodes', index')"
        by (simp add: parseLevel_while.psimps)
      from "1.IH"(4)[OF True refl other(1) other(2) other(3) outer] show ?thesis
        by simp
    qed
  qed
qed



lemma merge_run_advance_pair:
  "(r, j) = merge_run tokens index t repeat \<Longrightarrow> index < length tokens \<Longrightarrow>
   type (tokens ! index) = t \<Longrightarrow> index < j"
  using merge_run_index_advance[of index tokens t repeat] by (cases "merge_run tokens index t repeat") auto

termination parseLevel_while
  by (relation "measure (\<lambda>(tokens, index, nodes, insideLoop). length tokens - index)")
     (auto dest: parseLevel_while_index_mono_dom merge_run_advance_pair)

declare parseLevel_while.simps [simp del]

text \<open>
  \<^verbatim>\<open>parseLevel\<close>: a fresh, empty node array, then the loop. The recursive call in the
  loop above is this function with \<open>insideLoop = 1\<close>.
\<close>

definition parseLevel :: "Token list \<Rightarrow> nat \<Rightarrow> bool \<Rightarrow> error + (ASTNode list \<times> nat)" where
  "parseLevel tokens index insideLoop = parseLevel_while tokens index [] insideLoop"

text \<open>\<^verbatim>\<open>parseTokens\<close>: the root level, from index 0; the final index is dropped.\<close>

definition parseTokens :: "Token list \<Rightarrow> error + ASTNode list" where
  "parseTokens tokens =
     (case parseLevel tokens 0 False of Inl e \<Rightarrow> Inl e | Inr (nodes, index) \<Rightarrow> Inr nodes)"

subsection \<open>Generator phase\<close>

text \<open>The conversion \<^verbatim>\<open>%d\<close> of \<^verbatim>\<open>printf\<close>: decimal digits, with a sign when negative.\<close>

definition digit_char :: "nat \<Rightarrow> char" where
  "digit_char d = ''0123456789'' ! d"

fun show_nat :: "nat \<Rightarrow> string" where
  "show_nat n = (if n < 10 then [digit_char n] else show_nat (n div 10) @ [digit_char (n mod 10)])"

declare show_nat.simps [simp del]

definition show_int :: "int \<Rightarrow> string" where
  "show_int i = (if i < 0 then ''-'' @ show_nat (nat (- i)) else show_nat (nat i))"

definition print_indent :: "int \<Rightarrow> string" where
  "print_indent level = concat (replicate (nat level) ''    '')"

text \<open>
  \<^verbatim>\<open>generate_code\<close> returns the text it prints. The loop \<^verbatim>\<open>for (i = 0; i < numNodes; i++)\<close>
  visits the first \<open>numNodes\<close> nodes of the array; a \<^verbatim>\<open>NULL\<close> array has no nodes to
  visit. (The parser never passes a count above the length of the array.)
\<close>

function generate_code :: "ASTNode list \<Rightarrow> int \<Rightarrow> int \<Rightarrow> string" where
  "generate_code nodes numNodes indent_level =
     concat (map (\<lambda>node.
       (case ntype node of
          TOKEN_PLUS \<Rightarrow>
            print_indent indent_level @ ''*ptr += '' @ show_int (count node) @ '';\<newline>''
        | TOKEN_MINUS \<Rightarrow>
            print_indent indent_level @ ''*ptr -= '' @ show_int (count node) @ '';\<newline>''
        | TOKEN_NEXT \<Rightarrow>
            print_indent indent_level @ ''ptr += '' @ show_int (count node) @ '';\<newline>''
        | TOKEN_PREVIOUS \<Rightarrow>
            print_indent indent_level @ ''ptr -= '' @ show_int (count node) @ '';\<newline>''
        | TOKEN_OUTPUT \<Rightarrow>
            (if count node = 1 then
               print_indent indent_level @ ''putchar(*ptr);\<newline>''
             else
               print_indent indent_level @
               ''for (int i = 0; i < '' @ show_int (count node) @ ''; i++) {\<newline>'' @
               print_indent (indent_level + 1) @ ''putchar(*ptr);\<newline>'' @
               print_indent indent_level @ ''}\<newline>'')
        | TOKEN_INPUT \<Rightarrow>
            (if count node = 1 then
               print_indent indent_level @ ''*ptr = getchar();\<newline>''
             else
               print_indent indent_level @
               ''for (int i = 0; i < '' @ show_int (count node) @ ''; i++) {\<newline>'' @
               print_indent (indent_level + 1) @ ''*ptr = getchar();\<newline>'' @
               print_indent indent_level @ ''}\<newline>'')
        | TOKEN_LOOP_START \<Rightarrow>
            print_indent indent_level @ ''while (*ptr) {\<newline>'' @
            generate_code (case children node of None \<Rightarrow> [] | Some cs \<Rightarrow> cs)
              (numChildren node) (indent_level + 1) @
            print_indent indent_level @ ''}\<newline>''
        | TOKEN_LOOP_END \<Rightarrow> []))
       (take (nat numNodes) nodes))"
  by pat_completeness auto

lemma size_children_less:
  "node \<in> set nodes \<Longrightarrow>
   size_list size (case children node of None \<Rightarrow> [] | Some cs \<Rightarrow> cs) < size_list size nodes"
proof -
  assume mem: "node \<in> set nodes"
  have "size_list size (case children node of None \<Rightarrow> [] | Some cs \<Rightarrow> cs) < size node"
    by (cases node) (auto split: option.splits)
  also have "size node \<le> size_list size nodes"
    using mem by (simp add: size_list_estimation')
  finally show ?thesis .
qed

termination generate_code
  by (relation "measure (\<lambda>(nodes, numNodes, indent_level). size_list size nodes)")
     (auto dest: in_set_takeD intro: size_children_less)

declare generate_code.simps [simp del]

subsection \<open>The driver\<close>

definition TAPE_SIZE :: int where
  "TAPE_SIZE = 30000"

text \<open>
  Modelled from the spec: \<^verbatim>\<open>EXIT_FAILURE\<close> comes from \<^verbatim>\<open><stdlib.h>\<close>, which is not part
  of the sources; the specification asks for a non-zero status on every fatal error, and
  the value 1 is the usual one.
\<close>

definition EXIT_FAILURE :: int where
  "EXIT_FAILURE = 1"

record run =
  stdout :: string
  stderr :: string
  status :: int

text \<open>The \<^verbatim>\<open>fprintf(stderr, ...)\<close> of \<^verbatim>\<open>parseLevel\<close> that precedes each \<^verbatim>\<open>exit\<close>.\<close>

fun diagnostic :: "error \<Rightarrow> string" where
  "diagnostic (UnmatchedClose p) = ''Error: Unmatched ']' at position '' @ show_int p @ ''\<newline>''"
| "diagnostic UnmatchedOpen = ''Error: Unmatched '[' detected\<newline>''"

definition preamble :: string where
  "preamble =
     ''#include <stdio.h>\<newline>'' @
     ''#include <stdlib.h>\<newline>\<newline>'' @
     ''#define TAPE_SIZE '' @ show_int TAPE_SIZE @ ''\<newline>\<newline>'' @
     ''int main(void) {\<newline>'' @
     ''    unsigned char array[TAPE_SIZE] = {0};\<newline>'' @
     ''    unsigned char *ptr = array;\<newline>\<newline>''"

definition closing :: string where
  "closing = ''\<newline>    return 0;\<newline>'' @ ''}\<newline>''"

text \<open>
  The three phases of \<^verbatim>\<open>main\<close>, from the source text held in \<open>source\<close> on. Nothing is
  printed to the standard output before the parser has returned.
\<close>

definition transpile :: "string \<Rightarrow> run" where
  "transpile source =
     (let tokens = lex_src source in
      case parseTokens tokens of
        Inl e \<Rightarrow> \<lparr>stdout = [], stderr = diagnostic e, status = EXIT_FAILURE\<rparr>
      | Inr ast \<Rightarrow>
          \<lparr>stdout = preamble @ generate_code ast (int (length ast)) 1 @ closing,
           stderr = [], status = 0\<rparr>)"

text \<open>
  An input stream \<^verbatim>\<open>FILE\<close>: the bytes it holds, and whether it can seek. A regular file
  can; a pipe, a FIFO or a terminal cannot.
\<close>

record FILE =
  content :: string
  seekable :: bool

text \<open>
  How \<^verbatim>\<open>main\<close> gets the source text. \<open>ftell_end\<close> is the value of \<open>fsize\<close>: what
  \<^verbatim>\<open>ftell\<close> returns after \<^verbatim>\<open>fseek(fp, 0, SEEK_END)\<close>. Neither call is checked. On a stream
  that cannot seek both fail and \<open>fsize\<close> is \<open>-1\<close>.

  \<open>read_source\<close> is the text in the buffer \<open>source\<close> when the lexer starts. With
  \<open>0 \<le> fsize\<close> the buffer has \<open>fsize + 1\<close> bytes, \<^verbatim>\<open>fread\<close> stores the first \<open>fsize\<close>
  bytes of the stream and the terminator follows them. With \<open>fsize = -1\<close> the buffer has no
  byte, \<^verbatim>\<open>fread\<close> is asked for \<open>(size_t)-1\<close> bytes, a request that the system refuses, and
  the terminator is stored at index \<open>-1\<close>: C does not define this run, and the model takes
  what it does on the usual system, where no byte of the input reaches the lexer.
\<close>

definition ftell_end :: "FILE \<Rightarrow> int" where
  "ftell_end fp = (if seekable fp then int (length (content fp)) else - 1)"

definition read_source :: "FILE \<Rightarrow> string" where
  "read_source fp =
     (let fsize = ftell_end fp in
      if 0 \<le> fsize then take (nat fsize) (content fp) else [])"

text \<open>
  \<^verbatim>\<open>main\<close>. The arguments are \<open>argv\<close>, what \<^verbatim>\<open>fopen\<close> gives for a file name (the text of
  \<^verbatim>\<open>strerror\<close> when opening fails, the stream otherwise) and the standard input. Only
  \<open>argv[1]\<close> is ever looked at.
\<close>

definition main :: "string list \<Rightarrow> (string \<Rightarrow> string + FILE) \<Rightarrow> FILE \<Rightarrow> run" where
  "main argv fopen stdin =
     (let fp = (if length argv > 1 then fopen (argv ! 1) else Inr stdin) in
      case fp of
        Inl msg \<Rightarrow>
          \<lparr>stdout = [], stderr = ''Error opening input file: '' @ msg @ ''\<newline>'',
           status = EXIT_FAILURE\<rparr>
      | Inr fp \<Rightarrow> transpile (read_source fp))"

subsection \<open>Notions used to state the properties\<close>

text \<open>The number of consecutive tokens of kind \<open>t\<close> from \<open>index\<close> on.\<close>

definition run_length :: "Token list \<Rightarrow> nat \<Rightarrow> TokenType \<Rightarrow> nat" where
  "run_length tokens index t = length (takeWhile (\<lambda>tok. type tok = t) (drop index tokens))"

text \<open>
  Brackets, read off a sequence of token kinds. \<open>unmatched_close d ts\<close> is the offset of
  the first closing bracket of \<open>ts\<close> that has no partner when \<open>d\<close> brackets are open at the
  start; \<open>open_at_end d ts\<close> is the number of brackets still open behind \<open>ts\<close>.
\<close>

fun unmatched_close :: "nat \<Rightarrow> TokenType list \<Rightarrow> nat option" where
  "unmatched_close d [] = None"
| "unmatched_close d (t # ts) =
     (if t = TOKEN_LOOP_END then
        (if d = 0 then Some 0 else map_option Suc (unmatched_close (d - 1) ts))
      else if t = TOKEN_LOOP_START then map_option Suc (unmatched_close (d + 1) ts)
      else map_option Suc (unmatched_close d ts))"

fun open_at_end :: "nat \<Rightarrow> TokenType list \<Rightarrow> nat" where
  "open_at_end d [] = d"
| "open_at_end d (t # ts) =
     (if t = TOKEN_LOOP_END then open_at_end (d - 1) ts
      else if t = TOKEN_LOOP_START then open_at_end (d + 1) ts
      else open_at_end d ts)"

text \<open>
  Correct nesting: no prefix closes more loops than it opens. Balance: correct nesting, and as
  many closing as opening brackets.
\<close>

definition nested :: "TokenType list \<Rightarrow> bool" where
  "nested ts \<longleftrightarrow>
     list_all (\<lambda>n. count_list (take n ts) TOKEN_LOOP_END \<le> count_list (take n ts) TOKEN_LOOP_START)
       [0 ..< Suc (length ts)]"

definition balanced :: "TokenType list \<Rightarrow> bool" where
  "balanced ts \<longleftrightarrow>
     nested ts \<and> count_list ts TOKEN_LOOP_START = count_list ts TOKEN_LOOP_END"



text \<open>The token kinds a tree stands for.\<close>

fun unparse :: "ASTNode \<Rightarrow> TokenType list" where
  "unparse (ASTNode t c None n) =
     (if t = TOKEN_LOOP_START then [TOKEN_LOOP_START, TOKEN_LOOP_END] else replicate (nat c) t)"
| "unparse (ASTNode t c (Some cs) n) =
     (if t = TOKEN_LOOP_START then TOKEN_LOOP_START # concat (map unparse cs) @ [TOKEN_LOOP_END]
      else replicate (nat c) t)"

text \<open>
  The two shapes of a node: a loop with count 0 and an array of \<open>numChildren\<close> nodes of these
  shapes, or one of the six primitive kinds with no array.
\<close>

fun well_shaped :: "ASTNode \<Rightarrow> bool" where
  "well_shaped (ASTNode t c None n) = (is_primitive t \<and> n = 0)"
| "well_shaped (ASTNode t c (Some cs) n) =
     (t = TOKEN_LOOP_START \<and> c = 0 \<and> n = int (length cs) \<and> list_all well_shaped cs)"

text \<open>
  Maximal merging: in a sequence of nodes no two neighbours are non-loop nodes of the same
  kind, every non-loop node counts at least one instruction, and the same holds in every
  loop body.
\<close>

fun adjacent_distinct :: "ASTNode list \<Rightarrow> bool" where
  "adjacent_distinct (a # b # rest) =
     (\<not> (ntype a \<noteq> TOKEN_LOOP_START \<and> ntype b = ntype a) \<and> adjacent_distinct (b # rest))"
| "adjacent_distinct [a] = True"
| "adjacent_distinct [] = True"

fun merged :: "ASTNode \<Rightarrow> bool" where
  "merged (ASTNode t c None n) = (t \<noteq> TOKEN_LOOP_START \<longrightarrow> 1 \<le> c)"
| "merged (ASTNode t c (Some cs) n) =
     ((t \<noteq> TOKEN_LOOP_START \<longrightarrow> 1 \<le> c) \<and> adjacent_distinct cs \<and> list_all merged cs)"

definition merged_sequence :: "ASTNode list \<Rightarrow> bool" where
  "merged_sequence nodes \<longleftrightarrow> adjacent_distinct nodes \<and> list_all merged nodes"

text \<open>The number that a string of decimal digits denotes.\<close>

definition digit_value :: "char \<Rightarrow> nat" where
  "digit_value c = of_char c - of_char CHR ''0''"

definition decimal_value :: "string \<Rightarrow> nat" where
  "decimal_value s = foldl (\<lambda>acc c. 10 * acc + digit_value c) 0 s"

text \<open>All nodes of a tree, and the two shapes a node can have.\<close>

fun nodes_of :: "ASTNode \<Rightarrow> ASTNode list" where
  "nodes_of (ASTNode t c None n) = [ASTNode t c None n]"
| "nodes_of (ASTNode t c (Some cs) n) = ASTNode t c (Some cs) n # concat (map nodes_of cs)"

definition tree_nodes :: "ASTNode list \<Rightarrow> ASTNode list" where
  "tree_nodes ast = concat (map nodes_of ast)"

definition loop_shape :: "ASTNode \<Rightarrow> bool" where
  "loop_shape node \<longleftrightarrow>
     ntype node = TOKEN_LOOP_START \<and> count node = 0 \<and>
     (case children node of None \<Rightarrow> False | Some cs \<Rightarrow> numChildren node = int (length cs))"

definition primitive_shape :: "ASTNode \<Rightarrow> bool" where
  "primitive_shape node \<longleftrightarrow>
     is_primitive (ntype node) \<and> children node = None \<and> numChildren node = 0"

text \<open>
  What the brackets alone say about a level that starts at \<open>index\<close>: the error, or the
  index behind the tokens the level consumes.
\<close>

definition parse_outcome :: "Token list \<Rightarrow> nat \<Rightarrow> bool \<Rightarrow> error + nat" where
  "parse_outcome tokens index insideLoop =
     (case unmatched_close 0 (map type (drop index tokens)) of
        Some k \<Rightarrow>
          if insideLoop then Inr (index + k + 1)
          else Inl (UnmatchedClose (pos (tokens ! (index + k))))
      | None \<Rightarrow>
          if insideLoop \<or> 0 < open_at_end 0 (map type (drop index tokens))
          then Inl UnmatchedOpen
          else Inr (length tokens))"

text \<open>
  Every node of a tree together with the indentation level at which the generator reaches
  it: the nodes of a sequence at the level of the sequence, the nodes of a loop body one
  level deeper.
\<close>

fun placed :: "int \<Rightarrow> ASTNode \<Rightarrow> (ASTNode \<times> int) list" where
  "placed lvl (ASTNode t c None n) = [(ASTNode t c None n, lvl)]"
| "placed lvl (ASTNode t c (Some cs) n) =
     (ASTNode t c (Some cs) n, lvl) # concat (map (placed (lvl + 1)) cs)"

definition tree_placed :: "int \<Rightarrow> ASTNode list \<Rightarrow> (ASTNode \<times> int) list" where
  "tree_placed lvl ast = concat (map (placed lvl) ast)"

subsection \<open>The loops, one case at a time\<close>

lemma token_kind_cases: "t = TOKEN_LOOP_END \<or> t = TOKEN_LOOP_START \<or> is_primitive t"
  by (cases t) (simp_all add: is_primitive_def)

lemma is_primitive_not_bracket:
  "is_primitive t \<Longrightarrow> t \<noteq> TOKEN_LOOP_END \<and> t \<noteq> TOKEN_LOOP_START"
  by (auto simp: is_primitive_def)

lemma run_length_step:
  "index < length tokens \<Longrightarrow> type (tokens ! index) = t \<Longrightarrow>
   run_length tokens index t = Suc (run_length tokens (Suc index) t)"
  by (simp add: run_length_def Cons_nth_drop_Suc [symmetric])

lemma run_length_stop:
  "\<not> (index < length tokens \<and> type (tokens ! index) = t) \<Longrightarrow> run_length tokens index t = 0"
  by (cases "index < length tokens") (simp_all add: run_length_def Cons_nth_drop_Suc [symmetric])

lemma merge_run_eq:
  "merge_run tokens index t repeat =
     (repeat + int (run_length tokens index t), index + run_length tokens index t)"
proof (induction tokens index t repeat rule: merge_run.induct)
  case (1 tokens index t repeat)
  show ?case
  proof (cases "index < length tokens \<and> type (tokens ! index) = t")
    case True
    then have "merge_run tokens index t repeat = merge_run tokens (index + 1) t (repeat + 1)"
      by (subst merge_run.simps) simp
    also have "\<dots> = (repeat + 1 + int (run_length tokens (index + 1) t),
                     index + 1 + run_length tokens (index + 1) t)"
      using "1.IH" True by simp
    finally show ?thesis
      using True by (simp add: run_length_step)
  next
    case False
    then have "merge_run tokens index t repeat = (repeat, index)"
      by (subst merge_run.simps) auto
    with False show ?thesis
      by (simp add: run_length_stop)
  qed
qed

lemma run_length_bound:
  "index \<le> length tokens \<Longrightarrow> index + run_length tokens index t \<le> length tokens"
proof -
  assume "index \<le> length tokens"
  moreover
  have "run_length tokens index t \<le> length (drop index tokens)"
    unfolding run_length_def by (rule length_takeWhile_le)
  ultimately show ?thesis by simp
qed

lemma run_length_pos:
  "index < length tokens \<Longrightarrow> type (tokens ! index) = t \<Longrightarrow> 0 < run_length tokens index t"
  by (simp add: run_length_step)

lemma run_length_all:
  assumes "k < run_length tokens index t"
  shows "type (tokens ! (index + k)) = t"
proof -
  let ?d = "drop index tokens"
  from assms have k: "k < length (takeWhile (\<lambda>tok. type tok = t) ?d)"
    by (simp add: run_length_def)
  then have "takeWhile (\<lambda>tok. type tok = t) ?d ! k \<in> set (takeWhile (\<lambda>tok. type tok = t) ?d)"
    by simp
  then have "type (takeWhile (\<lambda>tok. type tok = t) ?d ! k) = t"
    by (auto dest: set_takeWhileD)
  moreover from k have "takeWhile (\<lambda>tok. type tok = t) ?d ! k = ?d ! k"
    by (rule takeWhile_nth)
  moreover have "index + k \<le> length tokens"
  proof (cases "index \<le> length tokens")
    case True
    then show ?thesis
      using run_length_bound [of index tokens t] assms by simp
  next
    case False
    with assms show ?thesis by (simp add: run_length_def)
  qed
  ultimately show ?thesis by simp
qed

lemma run_length_maximal:
  assumes "index + run_length tokens index t < length tokens"
  shows "type (tokens ! (index + run_length tokens index t)) \<noteq> t"
proof -
  let ?d = "drop index tokens"
  from assms have "length (takeWhile (\<lambda>tok. type tok = t) ?d) < length ?d"
    by (simp add: run_length_def)
  then have "\<not> type (?d ! length (takeWhile (\<lambda>tok. type tok = t) ?d)) = t"
    by (rule nth_length_takeWhile)
  with assms show ?thesis
    by (simp add: run_length_def)
qed

lemma parseLevel_while_end:
  "\<not> index < length tokens \<Longrightarrow>
   parseLevel_while tokens index nodes insideLoop =
     (if insideLoop then Inl UnmatchedOpen else Inr (nodes, index))"
  by (subst parseLevel_while.simps) simp

lemma parseLevel_while_close:
  "index < length tokens \<Longrightarrow> type (tokens ! index) = TOKEN_LOOP_END \<Longrightarrow>
   parseLevel_while tokens index nodes insideLoop =
     (if insideLoop then Inr (nodes, index + 1)
      else Inl (UnmatchedClose (pos (tokens ! index))))"
  by (subst parseLevel_while.simps) simp

lemma parseLevel_while_open:
  "index < length tokens \<Longrightarrow> type (tokens ! index) = TOKEN_LOOP_START \<Longrightarrow>
   parseLevel_while tokens index nodes insideLoop =
     (case parseLevel_while tokens (index + 1) [] True of
        Inl e \<Rightarrow> Inl e
      | Inr (cs, j) \<Rightarrow>
          parseLevel_while tokens j
            (nodes @ [ASTNode TOKEN_LOOP_START 0 (Some cs) (int (length cs))]) insideLoop)"
  by (subst parseLevel_while.simps) simp

lemma parseLevel_while_prim:
  "index < length tokens \<Longrightarrow> is_primitive (type (tokens ! index)) \<Longrightarrow>
   parseLevel_while tokens index nodes insideLoop =
     parseLevel_while tokens (index + run_length tokens index (type (tokens ! index)))
       (nodes @ [ASTNode (type (tokens ! index))
                   (int (run_length tokens index (type (tokens ! index)))) None 0])
       insideLoop"
  by (subst parseLevel_while.simps) (auto simp: merge_run_eq Let_def is_primitive_def)

lemma parseLevel_while_induct [case_names stop rbracket lbracket run]:
  assumes "\<And>tokens index nodes insideLoop.
      \<not> index < length tokens \<Longrightarrow> P tokens index nodes insideLoop"
    and "\<And>tokens index nodes insideLoop.
      index < length tokens \<Longrightarrow> type (tokens ! index) = TOKEN_LOOP_END \<Longrightarrow>
      P tokens index nodes insideLoop"
    and "\<And>tokens index nodes insideLoop.
      index < length tokens \<Longrightarrow> type (tokens ! index) = TOKEN_LOOP_START \<Longrightarrow>
      P tokens (index + 1) [] True \<Longrightarrow>
      (\<And>cs j. parseLevel_while tokens (index + 1) [] True = Inr (cs, j) \<Longrightarrow>
         P tokens j (nodes @ [ASTNode TOKEN_LOOP_START 0 (Some cs) (int (length cs))])
           insideLoop) \<Longrightarrow>
      P tokens index nodes insideLoop"
    and "\<And>tokens index nodes insideLoop.
      index < length tokens \<Longrightarrow> is_primitive (type (tokens ! index)) \<Longrightarrow>
      P tokens (index + run_length tokens index (type (tokens ! index)))
        (nodes @ [ASTNode (type (tokens ! index))
                    (int (run_length tokens index (type (tokens ! index)))) None 0])
        insideLoop \<Longrightarrow>
      P tokens index nodes insideLoop"
  shows "P tokens index nodes insideLoop"
proof (induction tokens index nodes insideLoop rule: parseLevel_while.induct)
  case (1 tokens index nodes insideLoop)
  show ?case
  proof (cases "index < length tokens")
    case False
    then show ?thesis by (rule assms(1))
  next
    case True
    let ?t = "type (tokens ! index)"
    from token_kind_cases [of ?t] consider
      (c) "?t = TOKEN_LOOP_END" | (o) "?t = TOKEN_LOOP_START" | (p) "is_primitive ?t"
      by blast
    then show ?thesis
    proof cases
      case c
      with True show ?thesis by (rule assms(2))
    next
      case o
      then have ne: "?t \<noteq> TOKEN_LOOP_END" by simp
      show ?thesis
      proof (rule assms(3) [OF True o])
        show "P tokens (index + 1) [] True"
          by (rule "1.IH"(1) [OF True refl ne o])
      next
        fix cs j
        assume "parseLevel_while tokens (index + 1) [] True = Inr (cs, j)"
        then show "P tokens j
          (nodes @ [ASTNode TOKEN_LOOP_START 0 (Some cs) (int (length cs))]) insideLoop"
          by (rule "1.IH"(2) [OF True refl ne o _ refl])
      qed
    next
      case p
      note nb = is_primitive_not_bracket [OF p]
      show ?thesis
      proof (rule assms(4) [OF True p])
        show "P tokens (index + run_length tokens index ?t)
          (nodes @ [ASTNode ?t (int (run_length tokens index ?t)) None 0]) insideLoop"
          using "1.IH"(3) [OF True refl conjunct1 [OF nb] conjunct2 [OF nb] p]
          by (simp add: merge_run_eq)
      qed
    qed
  qed
qed

subsection \<open>The lexer\<close>


lemma int32_id: "- 2147483648 \<le> k \<Longrightarrow> k < 2147483648 \<Longrightarrow> int32 k = k"
  by (simp add: int32_def)



lemma lex_from_append:
  "CHR 0x00 \<notin> set xs \<Longrightarrow> 0 \<le> i \<Longrightarrow> i + int (length xs) < 2147483648 \<Longrightarrow>
   lex_from i (xs @ ys) = lex_from i xs @ lex_from (i + int (length xs)) ys"
proof (induction xs arbitrary: i)
  case Nil
  then show ?case by simp
next
  case (Cons c cs)
  from Cons.prems have next_i: "int32 (i + 1) = i + 1"
    by (simp add: int32_id)
  from Cons.prems(1) have "c \<noteq> CHR 0x00"
    by auto
  with Cons.IH [of "i + 1"] Cons.prems show ?case
    by (simp add: next_i add.assoc split: option.splits)
qed









subsection \<open>The generator\<close>

lemma generate_code_single:
  "generate_code [node] 1 indent_level =
     (case ntype node of
        TOKEN_PLUS \<Rightarrow>
          print_indent indent_level @ ''*ptr += '' @ show_int (count node) @ '';\<newline>''
      | TOKEN_MINUS \<Rightarrow>
          print_indent indent_level @ ''*ptr -= '' @ show_int (count node) @ '';\<newline>''
      | TOKEN_NEXT \<Rightarrow>
          print_indent indent_level @ ''ptr += '' @ show_int (count node) @ '';\<newline>''
      | TOKEN_PREVIOUS \<Rightarrow>
          print_indent indent_level @ ''ptr -= '' @ show_int (count node) @ '';\<newline>''
      | TOKEN_OUTPUT \<Rightarrow>
          (if count node = 1 then
             print_indent indent_level @ ''putchar(*ptr);\<newline>''
           else
             print_indent indent_level @
             ''for (int i = 0; i < '' @ show_int (count node) @ ''; i++) {\<newline>'' @
             print_indent (indent_level + 1) @ ''putchar(*ptr);\<newline>'' @
             print_indent indent_level @ ''}\<newline>'')
      | TOKEN_INPUT \<Rightarrow>
          (if count node = 1 then
             print_indent indent_level @ ''*ptr = getchar();\<newline>''
           else
             print_indent indent_level @
             ''for (int i = 0; i < '' @ show_int (count node) @ ''; i++) {\<newline>'' @
             print_indent (indent_level + 1) @ ''*ptr = getchar();\<newline>'' @
             print_indent indent_level @ ''}\<newline>'')
      | TOKEN_LOOP_START \<Rightarrow>
          print_indent indent_level @ ''while (*ptr) {\<newline>'' @
          generate_code (case children node of None \<Rightarrow> [] | Some cs \<Rightarrow> cs)
            (numChildren node) (indent_level + 1) @
          print_indent indent_level @ ''}\<newline>''
      | TOKEN_LOOP_END \<Rightarrow> [])"
  by (subst generate_code.simps) simp

lemma generate_code_nodewise:
  "generate_code nodes (int (length nodes)) indent_level =
     concat (map (\<lambda>node. generate_code [node] 1 indent_level) nodes)"
  by (subst generate_code.simps) (simp add: generate_code_single)

lemma generate_code_around:
  "generate_code (before @ node # after) (int (length (before @ node # after))) indent_level =
     generate_code before (int (length before)) indent_level @
     generate_code [node] 1 indent_level @
     generate_code after (int (length after)) indent_level"
  by (simp only: generate_code_nodewise map_append list.map concat_append concat.simps)

lemma digit_value_digit_char: "d < 10 \<Longrightarrow> digit_value (digit_char d) = d"
proof -
  assume "d < 10"
  then have "d \<in> {0, 1, 2, 3, 4, 5, 6, 7, 8, 9}"
    by auto
  then show ?thesis
    by (auto simp: digit_value_def digit_char_def)
qed

lemma decimal_value_show_nat: "decimal_value (show_nat n) = n"
proof (induction n rule: show_nat.induct)
  case (1 n)
  show ?case
  proof (cases "n < 10")
    case True
    then show ?thesis
      by (subst show_nat.simps) (simp add: decimal_value_def digit_value_digit_char)
  next
    case False
    with "1.IH" have "decimal_value (show_nat (n div 10)) = n div 10"
      by simp
    with False show ?thesis
      by (subst show_nat.simps) (simp add: decimal_value_def digit_value_digit_char)
  qed
qed

lemma decimal_value_show_int: "0 \<le> i \<Longrightarrow> int (decimal_value (show_int i)) = i"
  by (simp add: show_int_def decimal_value_show_nat)

lemma generate_code_Nil: "generate_code [] numNodes indent_level = []"
  by (subst generate_code.simps) simp

lemma show_nat_digit: "n < 10 \<Longrightarrow> show_nat n = [digit_char n]"
  by (subst show_nat.simps) simp

lemma print_indent_1: "print_indent 1 = ''    ''"
  by (simp add: print_indent_def)

lemma print_indent_2: "print_indent 2 = ''        ''"
  by (simp add: print_indent_def numeral_2_eq_2)

subsection \<open>The driver\<close>

lemma show_int_TAPE_SIZE: "show_int TAPE_SIZE = ''30000''"
  by (simp add: TAPE_SIZE_def show_int_def show_nat.simps [of 30000] show_nat.simps [of 3000]
      show_nat.simps [of 300] show_nat.simps [of 30] show_nat.simps [of 3] digit_char_def)

lemma preamble_text:
  "preamble =
     ''#include <stdio.h>\<newline>#include <stdlib.h>\<newline>\<newline>#define TAPE_SIZE 30000\<newline>\<newline>int main(void) {\<newline>    unsigned char array[TAPE_SIZE] = {0};\<newline>    unsigned char *ptr = array;\<newline>\<newline>''"
  by (simp add: preamble_def show_int_TAPE_SIZE)

lemma transpile_stdout:
  "stdout (transpile source) = [] \<and> status (transpile source) = EXIT_FAILURE \<or>
   (\<exists>body. stdout (transpile source) = preamble @ body @ closing) \<and>
     status (transpile source) = 0"
  by (auto simp: transpile_def Let_def split: sum.splits)

lemma main_stdout:
  "stdout (main argv fopen stdin) = [] \<and> status (main argv fopen stdin) = EXIT_FAILURE \<or>
   (\<exists>body. stdout (main argv fopen stdin) = preamble @ body @ closing) \<and>
     status (main argv fopen stdin) = 0"
  using transpile_stdout [of "read_source stdin"] transpile_stdout
  by (auto simp: main_def Let_def split: sum.splits)

text \<open>
  C3 as stated fails: an invocation has no way to supply a tape size. Called with the extra
  argument \<open>100\<close>, the program still emits \<^verbatim>\<open>#define TAPE_SIZE 30000\<close>.
\<close>

theorem tape_size_option_counterexample:
  "stdout (main [''brainfuck2c'', ''prog.bf'', ''100'']
      (\<lambda>name. Inr \<lparr>content = [], seekable = True\<rparr>) \<lparr>content = [], seekable = True\<rparr>) =
     ''#include <stdio.h>\<newline>#include <stdlib.h>\<newline>\<newline>#define TAPE_SIZE 30000\<newline>\<newline>int main(void) {\<newline>    unsigned char array[TAPE_SIZE] = {0};\<newline>    unsigned char *ptr = array;\<newline>\<newline>\<newline>    return 0;\<newline>}\<newline>'' \<and>
   stdout (main [''brainfuck2c'', ''prog.bf'', ''100'']
      (\<lambda>name. Inr \<lparr>content = [], seekable = True\<rparr>) \<lparr>content = [], seekable = True\<rparr>) \<noteq>
     ''#include <stdio.h>\<newline>#include <stdlib.h>\<newline>\<newline>#define TAPE_SIZE 100\<newline>\<newline>int main(void) {\<newline>    unsigned char array[TAPE_SIZE] = {0};\<newline>    unsigned char *ptr = array;\<newline>\<newline>\<newline>    return 0;\<newline>}\<newline>''"
  by (simp add: main_def read_source_def ftell_end_def transpile_def lex_src_def parseTokens_def
      parseLevel_def parseLevel_while_end generate_code_Nil preamble_text closing_def)

text \<open>
  C3, amended. The tape size is a constant of the program, 30000, not an option of an
  invocation. It sets the text of the emitted \<^verbatim>\<open>#define TAPE_SIZE\<close> line, and the emitted
  buffer is declared with that macro as its capacity. Every invocation that ends with status
  0, whatever its arguments and input, emits the preamble with \<^verbatim>\<open>TAPE_SIZE 30000\<close>.
\<close>

theorem tape_size_is_constant:
  "TAPE_SIZE = 30000 \<and>
   (status (main argv fopen stdin) = 0 \<longrightarrow>
      (\<exists>body. stdout (main argv fopen stdin) =
         ''#include <stdio.h>\<newline>#include <stdlib.h>\<newline>\<newline>#define TAPE_SIZE 30000\<newline>\<newline>int main(void) {\<newline>    unsigned char array[TAPE_SIZE] = {0};\<newline>    unsigned char *ptr = array;\<newline>\<newline>'' @
         body @ ''\<newline>    return 0;\<newline>}\<newline>''))"
proof -
  have "\<exists>body. stdout (main argv fopen stdin) = preamble @ body @ closing"
    if "status (main argv fopen stdin) = 0"
    using main_stdout [of argv fopen stdin] that by (auto simp: EXIT_FAILURE_def)
  then show ?thesis
    by (simp add: preamble_text closing_def TAPE_SIZE_def)
qed

theorem tape_size_is_constant_witness:
  "status (main [''brainfuck2c''] (\<lambda>name. Inl ''No such file or directory'')
      \<lparr>content = ''+'', seekable = True\<rparr>) = 0 \<and>
   (\<exists>body. stdout (main [''brainfuck2c''] (\<lambda>name. Inl ''No such file or directory'')
      \<lparr>content = ''+'', seekable = True\<rparr>) =
      ''#include <stdio.h>\<newline>#include <stdlib.h>\<newline>\<newline>#define TAPE_SIZE 30000\<newline>\<newline>int main(void) {\<newline>    unsigned char array[TAPE_SIZE] = {0};\<newline>    unsigned char *ptr = array;\<newline>\<newline>'' @
      body @ ''\<newline>    return 0;\<newline>}\<newline>'')"
proof -
  have "parseTokens (lex_src ''+'') = Inr [ASTNode TOKEN_PLUS 1 None 0]"
    by (simp add: lex_src_def classify_def int32_def parseTokens_def parseLevel_def parseLevel_while_prim
        parseLevel_while_end is_primitive_def run_length_def)
  then have h: "status (main [''brainfuck2c''] (\<lambda>name. Inl ''No such file or directory'')
      \<lparr>content = ''+'', seekable = True\<rparr>) = 0"
    by (simp add: main_def read_source_def ftell_end_def transpile_def)
  with tape_size_is_constant
    [of "[''brainfuck2c'']" "\<lambda>name. Inl ''No such file or directory''"
      "\<lparr>content = ''+'', seekable = True\<rparr>"]
  show ?thesis
    by blast
qed

subsection \<open>The parser: what a successful level returns\<close>

lemma slice_append:
  "i \<le> j \<Longrightarrow> j \<le> k \<Longrightarrow>
   take (k - i) (drop i xs) = take (j - i) (drop i xs) @ take (k - j) (drop j xs)"
proof -
  assume ij: "i \<le> j" and jk: "j \<le> k"
  have "take (k - i) (drop i xs) = take ((j - i) + (k - j)) (drop i xs)"
    using ij jk by simp
  also have "\<dots> = take (j - i) (drop i xs) @ take (k - j) (drop (j - i) (drop i xs))"
    by (rule take_add)
  also have "drop (j - i) (drop i xs) = drop j xs"
    using ij by simp
  finally show ?thesis .
qed

lemma slice_one:
  "i < length xs \<Longrightarrow> take (Suc i - i) (drop i xs) = [xs ! i]"
  by (simp add: take_Suc_conv_app_nth Cons_nth_drop_Suc [symmetric])

lemma run_slice_types:
  "map type (take (run_length tokens index t) (drop index tokens)) =
     replicate (run_length tokens index t) t"
proof -
  let ?P = "\<lambda>tok. type tok = t"
  have "take (run_length tokens index t) (drop index tokens) = takeWhile ?P (drop index tokens)"
    unfolding run_length_def by (metis takeWhile_eq_take)
  moreover have "map type (takeWhile ?P xs) = replicate (length (takeWhile ?P xs)) t" for xs
    by (induction xs) simp_all
  ultimately show ?thesis
    by (simp add: run_length_def)
qed

lemma parseLevel_while_result:
  "parseLevel_while tokens index nodes insideLoop = Inr (nodes', index') \<Longrightarrow>
   index \<le> length tokens \<Longrightarrow>
   \<exists>new. nodes' = nodes @ new \<and> index \<le> index' \<and> index' \<le> length tokens \<and>
     list_all well_shaped new \<and>
     concat (map unparse new) @ (if insideLoop then [TOKEN_LOOP_END] else []) =
       map type (take (index' - index) (drop index tokens))"
proof (induction tokens index nodes insideLoop arbitrary: nodes' index'
    rule: parseLevel_while_induct)
  case (stop tokens index nodes insideLoop)
  then show ?case
    by (auto simp: parseLevel_while_end split: if_splits)
next
  case (rbracket tokens index nodes insideLoop)
  from rbracket(3) rbracket(1,2) have
    "insideLoop" "nodes' = nodes" "index' = index + 1"
    by (auto simp: parseLevel_while_close split: if_splits)
  with rbracket(1,2) show ?case
    using slice_one [of index tokens] by simp
next
  case (lbracket tokens index nodes insideLoop)
  from lbracket.prems(1) lbracket.hyps obtain cs j where
    inner: "parseLevel_while tokens (index + 1) [] True = Inr (cs, j)" and
    outer: "parseLevel_while tokens j
              (nodes @ [ASTNode TOKEN_LOOP_START 0 (Some cs) (int (length cs))]) insideLoop
            = Inr (nodes', index')"
    by (auto simp: parseLevel_while_open split: sum.splits)
  from lbracket.IH(1) [OF inner] lbracket.hyps(1) have
    j: "index + 1 \<le> j" "j \<le> length tokens" and
    ws: "list_all well_shaped cs" and
    un: "concat (map unparse cs) @ [TOKEN_LOOP_END] =
           map type (take (j - (index + 1)) (drop (index + 1) tokens))"
    by auto
  from lbracket.IH(2) [OF inner outer j(2)] obtain new where
    new: "nodes' = (nodes @ [ASTNode TOKEN_LOOP_START 0 (Some cs) (int (length cs))]) @ new" and
    k: "j \<le> index'" "index' \<le> length tokens" and
    ws': "list_all well_shaped new" and
    un': "concat (map unparse new) @ (if insideLoop then [TOKEN_LOOP_END] else []) =
            map type (take (index' - j) (drop j tokens))"
    by blast
  let ?new = "ASTNode TOKEN_LOOP_START 0 (Some cs) (int (length cs)) # new"
  have "take (index' - index) (drop index tokens) =
          take (Suc index - index) (drop index tokens) @
          take (j - Suc index) (drop (Suc index) tokens) @
          take (index' - j) (drop j tokens)"
    using slice_append [of index "Suc index" index' tokens]
      slice_append [of "Suc index" j index' tokens] j k by simp
  then have "map type (take (index' - index) (drop index tokens)) =
          TOKEN_LOOP_START # (concat (map unparse cs) @ [TOKEN_LOOP_END]) @
          concat (map unparse new) @ (if insideLoop then [TOKEN_LOOP_END] else [])"
    using slice_one [OF lbracket.hyps(1)] lbracket.hyps(2) un un' by simp
  then have "concat (map unparse ?new) @ (if insideLoop then [TOKEN_LOOP_END] else []) =
          map type (take (index' - index) (drop index tokens))"
    by simp
  moreover have "list_all well_shaped ?new"
    using ws ws' by simp
  moreover have "nodes' = nodes @ ?new"
    using new by simp
  moreover have "index \<le> index'" "index' \<le> length tokens"
    using j k by simp_all
  ultimately show ?case
    by blast
next
  case (run tokens index nodes insideLoop)
  let ?t = "type (tokens ! index)"
  let ?n = "run_length tokens index ?t"
  from run.prems(1) run.hyps have
    outer: "parseLevel_while tokens (index + ?n) (nodes @ [ASTNode ?t (int ?n) None 0])
              insideLoop = Inr (nodes', index')"
    by (simp add: parseLevel_while_prim)
  have bound: "index + ?n \<le> length tokens"
    using run.prems(2) by (rule run_length_bound)
  from run.IH [OF outer bound] obtain new where
    new: "nodes' = (nodes @ [ASTNode ?t (int ?n) None 0]) @ new" and
    k: "index + ?n \<le> index'" "index' \<le> length tokens" and
    ws': "list_all well_shaped new" and
    un': "concat (map unparse new) @ (if insideLoop then [TOKEN_LOOP_END] else []) =
            map type (take (index' - (index + ?n)) (drop (index + ?n) tokens))"
    by blast
  let ?new = "ASTNode ?t (int ?n) None 0 # new"
  have "take (index' - index) (drop index tokens) =
          take ?n (drop index tokens) @ take (index' - (index + ?n)) (drop (index + ?n) tokens)"
    using slice_append [of index "index + ?n" index' tokens] k by simp
  then have "map type (take (index' - index) (drop index tokens)) =
          replicate ?n ?t @ concat (map unparse new) @
          (if insideLoop then [TOKEN_LOOP_END] else [])"
    using un' by (simp add: run_slice_types)
  moreover have "?t \<noteq> TOKEN_LOOP_START"
    using is_primitive_not_bracket [OF run.hyps(2)] by simp
  ultimately have "concat (map unparse ?new) @ (if insideLoop then [TOKEN_LOOP_END] else []) =
          map type (take (index' - index) (drop index tokens))"
    by simp
  moreover have "list_all well_shaped ?new"
    using ws' run.hyps(2) by simp
  moreover have "nodes' = nodes @ ?new"
    using new by simp
  moreover have "index \<le> index'" "index' \<le> length tokens"
    using k by simp_all
  ultimately show ?case
    by blast
qed

lemma parseLevel_while_root_index:
  "parseLevel_while tokens index nodes insideLoop = Inr (nodes', index') \<Longrightarrow>
   \<not> insideLoop \<Longrightarrow> index \<le> length tokens \<Longrightarrow> index' = length tokens"
proof (induction tokens index nodes insideLoop arbitrary: nodes' index'
    rule: parseLevel_while_induct)
  case (stop tokens index nodes insideLoop)
  then show ?case
    by (auto simp: parseLevel_while_end)
next
  case (rbracket tokens index nodes insideLoop)
  then show ?case
    by (auto simp: parseLevel_while_close)
next
  case (lbracket tokens index nodes insideLoop)
  from lbracket.prems(1) lbracket.hyps obtain cs j where
    inner: "parseLevel_while tokens (index + 1) [] True = Inr (cs, j)" and
    outer: "parseLevel_while tokens j
              (nodes @ [ASTNode TOKEN_LOOP_START 0 (Some cs) (int (length cs))]) insideLoop
            = Inr (nodes', index')"
    by (auto simp: parseLevel_while_open split: sum.splits)
  from parseLevel_while_result [OF inner] lbracket.hyps(1) have "j \<le> length tokens"
    by auto
  with lbracket.IH(2) [OF inner outer lbracket.prems(2)] show ?case .
next
  case (run tokens index nodes insideLoop)
  let ?t = "type (tokens ! index)"
  let ?n = "run_length tokens index ?t"
  from run.prems(1) run.hyps have
    outer: "parseLevel_while tokens (index + ?n) (nodes @ [ASTNode ?t (int ?n) None 0])
              insideLoop = Inr (nodes', index')"
    by (simp add: parseLevel_while_prim)
  from run.IH [OF outer run.prems(2) run_length_bound [OF run.prems(3)]] show ?case .
qed

lemma parseTokens_result:
  assumes "parseTokens tokens = Inr ast"
  shows "list_all well_shaped ast \<and> concat (map unparse ast) = map type tokens"
proof -
  from assms obtain index where
    lvl: "parseLevel_while tokens 0 [] False = Inr (ast, index)"
    by (auto simp: parseTokens_def parseLevel_def split: sum.splits)
  from parseLevel_while_root_index [OF lvl] have "index = length tokens"
    by simp
  with parseLevel_while_result [OF lvl] show ?thesis
    by auto
qed

lemma well_shaped_nodes:
  "well_shaped node \<Longrightarrow> m \<in> set (nodes_of node) \<Longrightarrow>
   loop_shape m \<noteq> primitive_shape m \<and> ntype m \<noteq> TOKEN_LOOP_END"
proof (induction node arbitrary: m rule: well_shaped.induct)
  case (1 t c n)
  then show ?case
    by (auto simp: loop_shape_def primitive_shape_def is_primitive_def)
next
  case (2 t c cs n)
  show ?case
  proof (cases "m = ASTNode t c (Some cs) n")
    case True
    with "2.prems"(1) show ?thesis
      by (auto simp: loop_shape_def primitive_shape_def)
  next
    case False
    with "2.prems"(2) obtain child where
      child: "child \<in> set cs" "m \<in> set (nodes_of child)"
      by auto
    from "2.prems"(1) child(1) have "well_shaped child"
      by (auto simp: list_all_iff)
    with "2.IH" child show ?thesis
      by blast
  qed
qed

text \<open>
  C10. Every node of a tree that the parser returns, at any depth, has exactly one of two
  shapes: a loop (type \<open>TOKEN_LOOP_START\<close>, count 0, a children array that is not
  \<^verbatim>\<open>NULL\<close> and holds \<open>numChildren\<close> nodes, possibly none) or a primitive (one of the six
  primitive types, \<^verbatim>\<open>NULL\<close> children, \<open>numChildren\<close> 0); none has type \<open>TOKEN_LOOP_END\<close>.
\<close>

theorem parsed_nodes_two_shapes:
  "parseTokens tokens = Inr ast \<Longrightarrow>
   \<forall>node \<in> set (tree_nodes ast).
     (loop_shape node \<or> primitive_shape node) \<and> \<not> (loop_shape node \<and> primitive_shape node) \<and>
     ntype node \<noteq> TOKEN_LOOP_END"
proof
  fix node
  assume parsed: "parseTokens tokens = Inr ast" and "node \<in> set (tree_nodes ast)"
  then obtain top where top: "top \<in> set ast" "node \<in> set (nodes_of top)"
    by (auto simp: tree_nodes_def)
  from parseTokens_result [OF parsed] top(1) have "well_shaped top"
    by (auto simp: list_all_iff)
  from well_shaped_nodes [OF this top(2)]
  show "(loop_shape node \<or> primitive_shape node) \<and>
        \<not> (loop_shape node \<and> primitive_shape node) \<and> ntype node \<noteq> TOKEN_LOOP_END"
    by blast
qed

lemma parse_example_nested:
  "parseTokens (lex_src ''+[[-]]'') =
     Inr [ASTNode TOKEN_PLUS 1 None 0,
          ASTNode TOKEN_LOOP_START 0
            (Some [ASTNode TOKEN_LOOP_START 0 (Some [ASTNode TOKEN_MINUS 1 None 0]) 1]) 1]"
  by (simp add: lex_src_def classify_def int32_def parseTokens_def parseLevel_def parseLevel_while_open
      parseLevel_while_prim parseLevel_while_close parseLevel_while_end is_primitive_def
      run_length_def)

theorem parsed_nodes_two_shapes_witness:
  "parseTokens (lex_src ''+[[-]]'') =
     Inr [ASTNode TOKEN_PLUS 1 None 0,
          ASTNode TOKEN_LOOP_START 0
            (Some [ASTNode TOKEN_LOOP_START 0 (Some [ASTNode TOKEN_MINUS 1 None 0]) 1]) 1] \<and>
   ASTNode TOKEN_MINUS 1 None 0 \<in> set (tree_nodes
     [ASTNode TOKEN_PLUS 1 None 0,
      ASTNode TOKEN_LOOP_START 0
        (Some [ASTNode TOKEN_LOOP_START 0 (Some [ASTNode TOKEN_MINUS 1 None 0]) 1]) 1]) \<and>
   primitive_shape (ASTNode TOKEN_MINUS 1 None 0) \<and>
   \<not> loop_shape (ASTNode TOKEN_MINUS 1 None 0) \<and>
   loop_shape (ASTNode TOKEN_LOOP_START 0 (Some [ASTNode TOKEN_MINUS 1 None 0]) 1)"
proof -
  let ?ast = "[ASTNode TOKEN_PLUS 1 None 0,
      ASTNode TOKEN_LOOP_START 0
        (Some [ASTNode TOKEN_LOOP_START 0 (Some [ASTNode TOKEN_MINUS 1 None 0]) 1]) 1]"
  have mem1: "ASTNode TOKEN_MINUS 1 None 0 \<in> set (tree_nodes ?ast)"
    by (simp add: tree_nodes_def)
  have mem2: "ASTNode TOKEN_LOOP_START 0 (Some [ASTNode TOKEN_MINUS 1 None 0]) 1
                \<in> set (tree_nodes ?ast)"
    by (simp add: tree_nodes_def)
  note all = parsed_nodes_two_shapes [OF parse_example_nested]
  from all mem1 have "loop_shape (ASTNode TOKEN_MINUS 1 None 0) \<or>
      primitive_shape (ASTNode TOKEN_MINUS 1 None 0)"
    by blast
  then have "primitive_shape (ASTNode TOKEN_MINUS 1 None 0) \<and>
      \<not> loop_shape (ASTNode TOKEN_MINUS 1 None 0)"
    by (simp add: loop_shape_def)
  moreover from all mem2 have
    "loop_shape (ASTNode TOKEN_LOOP_START 0 (Some [ASTNode TOKEN_MINUS 1 None 0]) 1) \<or>
     primitive_shape (ASTNode TOKEN_LOOP_START 0 (Some [ASTNode TOKEN_MINUS 1 None 0]) 1)"
    by blast
  then have "loop_shape (ASTNode TOKEN_LOOP_START 0 (Some [ASTNode TOKEN_MINUS 1 None 0]) 1)"
    by (simp add: primitive_shape_def)
  ultimately show ?thesis
    using parse_example_nested mem1 by blast
qed

subsection \<open>The parser: maximal merging\<close>

lemma adjacent_distinct_snoc:
  "adjacent_distinct (xs @ [x]) \<longleftrightarrow>
     adjacent_distinct xs \<and>
     (xs \<noteq> [] \<longrightarrow> \<not> (ntype (last xs) \<noteq> TOKEN_LOOP_START \<and> ntype x = ntype (last xs)))"
  by (induction xs rule: adjacent_distinct.induct) auto

lemma parseLevel_while_merged:
  "parseLevel_while tokens index nodes insideLoop = Inr (nodes', index') \<Longrightarrow>
   index \<le> length tokens \<Longrightarrow>
   merged_sequence nodes \<Longrightarrow>
   (nodes \<noteq> [] \<and> index < length tokens \<and> ntype (last nodes) \<noteq> TOKEN_LOOP_START \<longrightarrow>
      type (tokens ! index) \<noteq> ntype (last nodes)) \<Longrightarrow>
   merged_sequence nodes'"
proof (induction tokens index nodes insideLoop arbitrary: nodes' index'
    rule: parseLevel_while_induct)
  case (stop tokens index nodes insideLoop)
  then show ?case
    by (auto simp: parseLevel_while_end split: if_splits)
next
  case (rbracket tokens index nodes insideLoop)
  then show ?case
    by (auto simp: parseLevel_while_close split: if_splits)
next
  case (lbracket tokens index nodes insideLoop)
  from lbracket.prems(1) lbracket.hyps obtain cs j where
    inner: "parseLevel_while tokens (index + 1) [] True = Inr (cs, j)" and
    outer: "parseLevel_while tokens j
              (nodes @ [ASTNode TOKEN_LOOP_START 0 (Some cs) (int (length cs))]) insideLoop
            = Inr (nodes', index')"
    by (auto simp: parseLevel_while_open split: sum.splits)
  from parseLevel_while_result [OF inner] lbracket.hyps(1) have j: "j \<le> length tokens"
    by auto
  from lbracket.IH(1) [OF inner] lbracket.hyps(1) have body: "merged_sequence cs"
    by (simp add: merged_sequence_def)
  let ?nodes = "nodes @ [ASTNode TOKEN_LOOP_START 0 (Some cs) (int (length cs))]"
  from body lbracket.prems(3) have "merged_sequence ?nodes"
    by (auto simp: merged_sequence_def adjacent_distinct_snoc)
  with lbracket.IH(2) [OF inner outer j] show ?case
    by simp
next
  case (run tokens index nodes insideLoop)
  let ?t = "type (tokens ! index)"
  let ?n = "run_length tokens index ?t"
  let ?nodes = "nodes @ [ASTNode ?t (int ?n) None 0]"
  from run.prems(1) run.hyps have
    outer: "parseLevel_while tokens (index + ?n) ?nodes insideLoop = Inr (nodes', index')"
    by (simp add: parseLevel_while_prim)
  have "0 < ?n"
    using run.hyps(1) by (simp add: run_length_pos)
  with run.prems(3,4) run.hyps(1) have "merged_sequence ?nodes"
    by (auto simp: merged_sequence_def adjacent_distinct_snoc)
  moreover have "index + ?n < length tokens \<longrightarrow> type (tokens ! (index + ?n)) \<noteq> ?t"
    using run_length_maximal [of index tokens ?t] by blast
  ultimately show ?case
    using run.IH [OF outer run_length_bound [OF run.prems(2)]] by simp
qed

lemma merged_nodes:
  "merged node \<Longrightarrow> m \<in> set (nodes_of node) \<Longrightarrow>
   (\<forall>cs. children m = Some cs \<longrightarrow> adjacent_distinct cs) \<and>
   (ntype m \<noteq> TOKEN_LOOP_START \<longrightarrow> 1 \<le> count m)"
proof (induction node arbitrary: m rule: merged.induct)
  case (1 t c n)
  then show ?case
    by auto
next
  case (2 t c cs n)
  show ?case
  proof (cases "m = ASTNode t c (Some cs) n")
    case True
    with "2.prems"(1) show ?thesis
      by auto
  next
    case False
    with "2.prems"(2) obtain child where
      child: "child \<in> set cs" "m \<in> set (nodes_of child)"
      by auto
    from "2.prems"(1) child(1) have "merged child"
      by (auto simp: list_all_iff)
    with "2.IH" child show ?thesis
      by blast
  qed
qed

text \<open>
  C2. In a tree that the parser returns, neither the root sequence nor the body of any loop
  has two neighbours that are non-loop nodes of the same kind, and every non-loop node has
  a count of at least 1. The merge is maximal: at a primitive token the parser appends one
  node whose count is the length \<open>n\<close> of the run of tokens of that kind, all \<open>n\<close> tokens
  are of that kind and are consumed, and the next token, if there is one, is of another kind.
\<close>

theorem parsed_tree_merged:
  "(parseTokens tokens = Inr ast \<longrightarrow>
      adjacent_distinct ast \<and>
      (\<forall>node \<in> set (tree_nodes ast).
         (\<forall>cs. children node = Some cs \<longrightarrow> adjacent_distinct cs) \<and>
         (ntype node \<noteq> TOKEN_LOOP_START \<longrightarrow> 1 \<le> count node))) \<and>
   (index < length tokens \<and> is_primitive (type (tokens ! index)) \<longrightarrow>
      (let t = type (tokens ! index); n = run_length tokens index t in
         parseLevel_while tokens index nodes insideLoop =
           parseLevel_while tokens (index + n) (nodes @ [ASTNode t (int n) None 0]) insideLoop \<and>
         1 \<le> n \<and> (\<forall>k < n. type (tokens ! (index + k)) = t) \<and>
         (index + n < length tokens \<longrightarrow> type (tokens ! (index + n)) \<noteq> t)))"
proof (intro conjI impI)
  assume parsed: "parseTokens tokens = Inr ast"
  then obtain j where lvl: "parseLevel_while tokens 0 [] False = Inr (ast, j)"
    by (auto simp: parseTokens_def parseLevel_def split: sum.splits)
  from parseLevel_while_merged [OF lvl] have ms: "merged_sequence ast"
    by (simp add: merged_sequence_def)
  then show "adjacent_distinct ast"
    by (simp add: merged_sequence_def)
  show "\<forall>node \<in> set (tree_nodes ast).
         (\<forall>cs. children node = Some cs \<longrightarrow> adjacent_distinct cs) \<and>
         (ntype node \<noteq> TOKEN_LOOP_START \<longrightarrow> 1 \<le> count node)"
  proof
    fix node
    assume "node \<in> set (tree_nodes ast)"
    then obtain top where top: "top \<in> set ast" "node \<in> set (nodes_of top)"
      by (auto simp: tree_nodes_def)
    from ms top(1) have "merged top"
      by (auto simp: merged_sequence_def list_all_iff)
    from merged_nodes [OF this top(2)]
    show "(\<forall>cs. children node = Some cs \<longrightarrow> adjacent_distinct cs) \<and>
          (ntype node \<noteq> TOKEN_LOOP_START \<longrightarrow> 1 \<le> count node)" .
  qed
next
  assume step: "index < length tokens \<and> is_primitive (type (tokens ! index))"
  let ?t = "type (tokens ! index)"
  let ?n = "run_length tokens index ?t"
  from step have "parseLevel_while tokens index nodes insideLoop =
      parseLevel_while tokens (index + ?n) (nodes @ [ASTNode ?t (int ?n) None 0]) insideLoop"
    by (simp add: parseLevel_while_prim)
  moreover from step have "1 \<le> ?n"
    using run_length_pos [of index tokens ?t] by simp
  moreover have "\<forall>k < ?n. type (tokens ! (index + k)) = ?t"
    by (simp add: run_length_all)
  moreover have "index + ?n < length tokens \<longrightarrow> type (tokens ! (index + ?n)) \<noteq> ?t"
    using run_length_maximal [of index tokens ?t] by blast
  ultimately show "let t = type (tokens ! index); n = run_length tokens index t in
         parseLevel_while tokens index nodes insideLoop =
           parseLevel_while tokens (index + n) (nodes @ [ASTNode t (int n) None 0]) insideLoop \<and>
         1 \<le> n \<and> (\<forall>k < n. type (tokens ! (index + k)) = t) \<and>
         (index + n < length tokens \<longrightarrow> type (tokens ! (index + n)) \<noteq> t)"
    by (simp add: Let_def)
qed

lemma parse_example_runs:
  "parseTokens (lex_src ''++[--]+'') =
     Inr [ASTNode TOKEN_PLUS 2 None 0,
          ASTNode TOKEN_LOOP_START 0 (Some [ASTNode TOKEN_MINUS 2 None 0]) 1,
          ASTNode TOKEN_PLUS 1 None 0]"
  by (simp add: lex_src_def classify_def int32_def parseTokens_def parseLevel_def parseLevel_while_open
      parseLevel_while_prim parseLevel_while_close parseLevel_while_end is_primitive_def
      run_length_def)

theorem parsed_tree_merged_witness:
  "parseTokens (lex_src ''++[--]+'') =
     Inr [ASTNode TOKEN_PLUS 2 None 0,
          ASTNode TOKEN_LOOP_START 0 (Some [ASTNode TOKEN_MINUS 2 None 0]) 1,
          ASTNode TOKEN_PLUS 1 None 0] \<and>
   adjacent_distinct [ASTNode TOKEN_PLUS 2 None 0,
          ASTNode TOKEN_LOOP_START 0 (Some [ASTNode TOKEN_MINUS 2 None 0]) 1,
          ASTNode TOKEN_PLUS 1 None 0] \<and>
   (0::nat) < length (lex_src ''++[--]+'') \<and> is_primitive (type (lex_src ''++[--]+'' ! 0)) \<and>
   run_length (lex_src ''++[--]+'') 0 TOKEN_PLUS = 2 \<and>
   parseLevel_while (lex_src ''++[--]+'') 0 [] False =
     parseLevel_while (lex_src ''++[--]+'') 2 [ASTNode TOKEN_PLUS 2 None 0] False"
proof -
  let ?tokens = "lex_src ''++[--]+''"
  have toks: "?tokens =
    [\<lparr>type = TOKEN_PLUS, pos = 0\<rparr>, \<lparr>type = TOKEN_PLUS, pos = 1\<rparr>,
     \<lparr>type = TOKEN_LOOP_START, pos = 2\<rparr>, \<lparr>type = TOKEN_MINUS, pos = 3\<rparr>,
     \<lparr>type = TOKEN_MINUS, pos = 4\<rparr>, \<lparr>type = TOKEN_LOOP_END, pos = 5\<rparr>,
     \<lparr>type = TOKEN_PLUS, pos = 6\<rparr>]"
    by (simp add: lex_src_def classify_def int32_def)
  have h: "(0::nat) < length ?tokens \<and> is_primitive (type (?tokens ! 0))"
    by (simp add: toks is_primitive_def)
  have rl: "run_length ?tokens 0 TOKEN_PLUS = 2"
    by (simp add: toks run_length_def)
  have t0: "type (?tokens ! 0) = TOKEN_PLUS"
    by (simp add: toks)
  note inst = parsed_tree_merged [where tokens = ?tokens and index = 0 and nodes = "[]"
      and insideLoop = False and ast = "[ASTNode TOKEN_PLUS 2 None 0,
          ASTNode TOKEN_LOOP_START 0 (Some [ASTNode TOKEN_MINUS 2 None 0]) 1,
          ASTNode TOKEN_PLUS 1 None 0]"]
  from inst parse_example_runs have "adjacent_distinct [ASTNode TOKEN_PLUS 2 None 0,
          ASTNode TOKEN_LOOP_START 0 (Some [ASTNode TOKEN_MINUS 2 None 0]) 1,
          ASTNode TOKEN_PLUS 1 None 0]"
    by blast
  moreover from inst h have "parseLevel_while ?tokens 0 [] False =
     parseLevel_while ?tokens 2 [ASTNode TOKEN_PLUS 2 None 0] False"
    by (simp add: Let_def t0 rl)
  ultimately show ?thesis
    using parse_example_runs h rl by blast
qed

subsection \<open>Brackets in a sequence of token kinds\<close>

lemma unmatched_close_primitive:
  "is_primitive t \<Longrightarrow>
   unmatched_close d (t # ts) =
     (case unmatched_close d ts of None \<Rightarrow> None | Some m \<Rightarrow> Some (Suc m))"
  by (auto simp: is_primitive_def split: option.splits)

lemma unmatched_close_primitives:
  "is_primitive t \<Longrightarrow>
   unmatched_close d (replicate n t @ ts) =
     (case unmatched_close d ts of None \<Rightarrow> None | Some m \<Rightarrow> Some (n + m))"
proof (induction n)
  case 0
  then show ?case
    by (simp split: option.splits)
next
  case (Suc n)
  have "unmatched_close d (replicate (Suc n) t @ ts) =
      (case unmatched_close d (replicate n t @ ts) of None \<Rightarrow> None | Some m \<Rightarrow> Some (Suc m))"
    by (simp only: replicate_Suc append_Cons unmatched_close_primitive [OF Suc.prems])
  also have "\<dots> = (case unmatched_close d ts of None \<Rightarrow> None | Some m \<Rightarrow> Some (Suc n + m))"
    by (simp only: Suc.IH [OF Suc.prems]) (simp split: option.splits)
  finally show ?case .
qed

lemma open_at_end_primitives:
  "is_primitive t \<Longrightarrow> open_at_end d (replicate n t @ ts) = open_at_end d ts"
  by (induction n) (auto simp: is_primitive_def)

lemma unmatched_close_deeper:
  "unmatched_close (e + Suc d) ts =
     (case unmatched_close e ts of
        None \<Rightarrow> None
      | Some k \<Rightarrow>
          (case unmatched_close d (drop (Suc k) ts) of
             None \<Rightarrow> None
           | Some m \<Rightarrow> Some (Suc k + m)))"
proof (induction ts arbitrary: e)
  case Nil
  then show ?case by simp
next
  case (Cons t ts)
  show ?case
  proof (cases "t = TOKEN_LOOP_END")
    case True
    show ?thesis
    proof (cases e)
      case 0
      with True show ?thesis
        by (simp split: option.splits)
    next
      case (Suc e')
      with True Cons.IH [of e'] show ?thesis
        by (simp split: option.splits)
    qed
  next
    case False
    show ?thesis
    proof (cases "t = TOKEN_LOOP_START")
      case True
      with Cons.IH [of "Suc e"] show ?thesis
        by (simp split: option.splits)
    next
      case other: False
      with False Cons.IH [of e] show ?thesis
        by (simp split: option.splits)
    qed
  qed
qed

lemma open_at_end_shift:
  "unmatched_close e ts = None \<Longrightarrow> open_at_end (e + c) ts = open_at_end e ts + c"
proof (induction ts arbitrary: e)
  case Nil
  then show ?case by simp
next
  case (Cons t ts)
  show ?case
  proof (cases "t = TOKEN_LOOP_END")
    case True
    with Cons.prems obtain e' where e: "e = Suc e'" and "unmatched_close e' ts = None"
      by (cases e) (auto split: if_splits)
    with Cons.IH [of e'] True show ?thesis
      by simp
  next
    case False
    show ?thesis
    proof (cases "t = TOKEN_LOOP_START")
      case True
      with Cons.prems Cons.IH [of "Suc e"] show ?thesis
        by simp
    next
      case other: False
      with False Cons.prems Cons.IH [of e] show ?thesis
        by simp
    qed
  qed
qed

lemma open_at_end_deeper:
  "unmatched_close e ts = Some k \<Longrightarrow>
   open_at_end (e + Suc d) ts = open_at_end d (drop (Suc k) ts)"
proof (induction ts arbitrary: e k)
  case Nil
  then show ?case by simp
next
  case (Cons t ts)
  show ?case
  proof (cases "t = TOKEN_LOOP_END")
    case True
    show ?thesis
    proof (cases e)
      case 0
      with True Cons.prems show ?thesis
        by simp
    next
      case (Suc e')
      with True Cons.prems obtain k' where "k = Suc k'" "unmatched_close e' ts = Some k'"
        by auto
      with Cons.IH [of e' k'] True Suc show ?thesis
        by simp
    qed
  next
    case False
    show ?thesis
    proof (cases "t = TOKEN_LOOP_START")
      case True
      with Cons.prems obtain k' where "k = Suc k'" "unmatched_close (Suc e) ts = Some k'"
        by auto
      with Cons.IH [of "Suc e" k'] True show ?thesis
        by simp
    next
      case other: False
      with False Cons.prems obtain k' where "k = Suc k'" "unmatched_close e ts = Some k'"
        by auto
      with Cons.IH [of e k'] False other show ?thesis
        by simp
    qed
  qed
qed

lemma unmatched_close_append:
  "unmatched_close d (xs @ ys) =
     (case unmatched_close d xs of
        Some k \<Rightarrow> Some k
      | None \<Rightarrow>
          (case unmatched_close (open_at_end d xs) ys of
             None \<Rightarrow> None
           | Some m \<Rightarrow> Some (length xs + m)))"
proof (induction xs arbitrary: d)
  case Nil
  then show ?case
    by (simp split: option.splits)
next
  case (Cons t xs)
  show ?case
    by (simp add: Cons.IH split: option.splits)
qed

lemma all_le_Suc_split:
  "(\<forall>n \<le> Suc k. P n) \<longleftrightarrow> P 0 \<and> (\<forall>n \<le> k. P (Suc n))"
proof
  assume "\<forall>n \<le> Suc k. P n"
  then show "P 0 \<and> (\<forall>n \<le> k. P (Suc n))"
    by simp
next
  assume r: "P 0 \<and> (\<forall>n \<le> k. P (Suc n))"
  show "\<forall>n \<le> Suc k. P n"
  proof (intro allI impI)
    fix n
    assume "n \<le> Suc k"
    with r show "P n"
      by (cases n) simp_all
  qed
qed

lemma nested_iff:
  "nested ts \<longleftrightarrow>
     (\<forall>n \<le> length ts. count_list (take n ts) TOKEN_LOOP_END \<le> count_list (take n ts) TOKEN_LOOP_START)"
  by (auto simp: nested_def list_all_iff less_Suc_eq_le)

lemma unmatched_close_None_iff:
  "unmatched_close d ts = None \<longleftrightarrow>
     (\<forall>n \<le> length ts.
        count_list (take n ts) TOKEN_LOOP_END \<le> d + count_list (take n ts) TOKEN_LOOP_START)"
proof (induction ts arbitrary: d)
  case Nil
  then show ?case by simp
next
  case (Cons t ts)
  show ?case
  proof (cases "t = TOKEN_LOOP_END")
    case True
    show ?thesis
    proof (cases d)
      case 0
      have "\<not> (\<forall>n \<le> length (t # ts).
        count_list (take n (t # ts)) TOKEN_LOOP_END
          \<le> 0 + count_list (take n (t # ts)) TOKEN_LOOP_START)"
        using True by (auto intro!: exI [of _ "Suc 0"])
      with 0 True show ?thesis
        by simp
    next
      case (Suc d')
      with True Cons.IH [of d'] show ?thesis
        by (simp add: all_le_Suc_split)
    qed
  next
    case False
    show ?thesis
    proof (cases "t = TOKEN_LOOP_START")
      case True
      with Cons.IH [of "Suc d"] show ?thesis
        by (simp add: all_le_Suc_split)
    next
      case other: False
      with False Cons.IH [of d] show ?thesis
        by (simp add: all_le_Suc_split)
    qed
  qed
qed

lemma open_at_end_count:
  "unmatched_close d ts = None \<Longrightarrow>
   open_at_end d ts + count_list ts TOKEN_LOOP_END = d + count_list ts TOKEN_LOOP_START"
proof (induction ts arbitrary: d)
  case Nil
  then show ?case by simp
next
  case (Cons t ts)
  show ?case
  proof (cases "t = TOKEN_LOOP_END")
    case True
    with Cons.prems obtain d' where "d = Suc d'" "unmatched_close d' ts = None"
      by (cases d) (auto split: if_splits)
    with Cons.IH [of d'] True show ?thesis
      by simp
  next
    case False
    show ?thesis
    proof (cases "t = TOKEN_LOOP_START")
      case True
      with Cons.prems Cons.IH [of "Suc d"] show ?thesis
        by simp
    next
      case other: False
      with False Cons.prems Cons.IH [of d] show ?thesis
        by simp
    qed
  qed
qed

lemma nested_unmatched_close: "nested ts \<longleftrightarrow> unmatched_close 0 ts = None"
  by (simp add: nested_iff unmatched_close_None_iff)

lemma balanced_iff:
  "balanced ts \<longleftrightarrow> unmatched_close 0 ts = None \<and> open_at_end 0 ts = 0"
  using open_at_end_count [of 0 ts]
  by (auto simp: balanced_def nested_unmatched_close)

subsection \<open>The parser: errors and success are decided by the brackets\<close>

lemma parseLevel_while_outcome:
  "index \<le> length tokens \<Longrightarrow>
   map_sum id snd (parseLevel_while tokens index nodes insideLoop) =
     parse_outcome tokens index insideLoop"
proof (induction tokens index nodes insideLoop rule: parseLevel_while_induct)
  case (stop tokens index nodes insideLoop)
  then have "index = length tokens"
    by simp
  with stop show ?case
    by (simp add: parseLevel_while_end parse_outcome_def)
next
  case (rbracket tokens index nodes insideLoop)
  from rbracket(1) have "drop index tokens = tokens ! index # drop (Suc index) tokens"
    by (simp add: Cons_nth_drop_Suc)
  with rbracket(1,2) show ?case
    by (simp add: parseLevel_while_close parse_outcome_def)
next
  case (lbracket tokens index nodes insideLoop)
  let ?ts' = "map type (drop (Suc index) tokens)"
  from lbracket.hyps(1) have dr: "drop index tokens = tokens ! index # drop (Suc index) tokens"
    by (simp add: Cons_nth_drop_Suc)
  have uc: "unmatched_close 0 (map type (drop index tokens)) =
      map_option Suc (unmatched_close (Suc 0) ?ts')"
    using lbracket.hyps(2) by (simp add: dr)
  have oe: "open_at_end 0 (map type (drop index tokens)) = open_at_end (Suc 0) ?ts'"
    using lbracket.hyps(2) by (simp add: dr)
  have inner: "map_sum id snd (parseLevel_while tokens (index + 1) [] True) =
                 parse_outcome tokens (index + 1) True"
    by (rule lbracket.IH(1)) (use lbracket.hyps(1) in simp)
  show ?case
  proof (cases "unmatched_close 0 ?ts'")
    case None
    with inner have "parseLevel_while tokens (index + 1) [] True = Inl UnmatchedOpen"
      by (cases "parseLevel_while tokens (index + 1) [] True")
        (simp_all add: parse_outcome_def)
    then have "parseLevel_while tokens index nodes insideLoop = Inl UnmatchedOpen"
      using lbracket.hyps by (simp add: parseLevel_while_open)
    moreover from None have "unmatched_close (Suc 0) ?ts' = None"
      using unmatched_close_deeper [of 0 0 ?ts'] by simp
    moreover from None have "open_at_end (Suc 0) ?ts' = open_at_end 0 ?ts' + 1"
      using open_at_end_shift [of 0 ?ts' 1] by simp
    ultimately show ?thesis
      by (simp add: parse_outcome_def uc oe)
  next
    case (Some k)
    let ?j = "index + k + 2"
    from Some inner obtain cs where
      res: "parseLevel_while tokens (index + 1) [] True = Inr (cs, ?j)"
      by (cases "parseLevel_while tokens (index + 1) [] True")
        (auto simp: parse_outcome_def)
    from parseLevel_while_result [OF res] lbracket.hyps(1) have j: "?j \<le> length tokens"
      by auto
    have whole: "parseLevel_while tokens index nodes insideLoop =
        parseLevel_while tokens ?j
          (nodes @ [ASTNode TOKEN_LOOP_START 0 (Some cs) (int (length cs))]) insideLoop"
      using lbracket.hyps res by (simp add: parseLevel_while_open)
    have dj: "drop (Suc k) ?ts' = map type (drop ?j tokens)"
      by (simp add: drop_map add.commute)
    have uc': "unmatched_close (Suc 0) ?ts' =
        (case unmatched_close 0 (map type (drop ?j tokens)) of
           None \<Rightarrow> None | Some m \<Rightarrow> Some (Suc k + m))"
      using unmatched_close_deeper [of 0 0 ?ts'] Some by (simp add: dj)
    have oe': "open_at_end (Suc 0) ?ts' = open_at_end 0 (map type (drop ?j tokens))"
      using open_at_end_deeper [OF Some, of 0] by (simp add: dj)
    have "parse_outcome tokens index insideLoop = parse_outcome tokens ?j insideLoop"
      by (simp add: parse_outcome_def uc oe uc' oe' add.assoc split: option.splits)
    with lbracket.IH(2) [OF res j] whole show ?thesis
      by simp
  qed
next
  case (run tokens index nodes insideLoop)
  let ?t = "type (tokens ! index)"
  let ?n = "run_length tokens index ?t"
  let ?rest = "map type (drop (index + ?n) tokens)"
  have bound: "index + ?n \<le> length tokens"
    using run.prems by (rule run_length_bound)
  have "drop index tokens = take ?n (drop index tokens) @ drop ?n (drop index tokens)"
    by (simp only: append_take_drop_id)
  also have "drop ?n (drop index tokens) = drop (index + ?n) tokens"
    by (simp add: add.commute)
  finally have "map type (drop index tokens) =
      map type (take ?n (drop index tokens)) @ map type (drop (index + ?n) tokens)"
    by (metis map_append)
  then have sp: "map type (drop index tokens) = replicate ?n ?t @ ?rest"
    by (simp only: run_slice_types)
  have uc: "unmatched_close 0 (map type (drop index tokens)) =
      (case unmatched_close 0 ?rest of None \<Rightarrow> None | Some m \<Rightarrow> Some (?n + m))"
    by (simp only: sp unmatched_close_primitives [OF run.hyps(2)])
  have oe: "open_at_end 0 (map type (drop index tokens)) = open_at_end 0 ?rest"
    by (simp only: sp open_at_end_primitives [OF run.hyps(2)])
  have "parse_outcome tokens index insideLoop = parse_outcome tokens (index + ?n) insideLoop"
    by (simp add: parse_outcome_def uc oe add.assoc split: option.splits)
  with run.IH [OF bound] run.hyps show ?case
    by (simp add: parseLevel_while_prim)
qed

lemma parseTokens_outcome:
  "map_sum id (\<lambda>ast. length tokens) (parseTokens tokens) = parse_outcome tokens 0 False"
proof -
  have "map_sum id snd (parseLevel_while tokens 0 [] False) = parse_outcome tokens 0 False"
    by (rule parseLevel_while_outcome) simp
  moreover have "snd r = length tokens" if "parseLevel_while tokens 0 [] False = Inr r" for r
    using parseLevel_while_root_index [of tokens 0 "[]" False "fst r" "snd r"] that by simp
  ultimately show ?thesis
    by (cases "parseLevel_while tokens 0 [] False")
      (auto simp: parseTokens_def parseLevel_def)
qed

lemma parseTokens_error:
  "parse_outcome tokens 0 False = Inl e \<Longrightarrow> parseTokens tokens = Inl e"
  using parseTokens_outcome [of tokens] by (cases "parseTokens tokens") simp_all


lemma lex_close: "lex_src '']'' = [\<lparr>type = TOKEN_LOOP_END, pos = 0\<rparr>]"
  by (simp add: lex_src_def classify_def int32_def)

lemma lex_open_plus:
  "lex_src ''[+'' = [\<lparr>type = TOKEN_LOOP_START, pos = 0\<rparr>, \<lparr>type = TOKEN_PLUS, pos = 1\<rparr>]"
  by (simp add: lex_src_def classify_def int32_def)

lemma lex_open_close:
  "lex_src ''[]'' = [\<lparr>type = TOKEN_LOOP_START, pos = 0\<rparr>, \<lparr>type = TOKEN_LOOP_END, pos = 1\<rparr>]"
  by (simp add: lex_src_def classify_def int32_def)

lemma parseTokens_unmatched_close:
  assumes "k < length tokens" and "type (tokens ! k) = TOKEN_LOOP_END"
    and "balanced (map type (take k tokens))"
  shows "parseTokens tokens = Inl (UnmatchedClose (pos (tokens ! k)))"
proof -
  let ?pre = "map type (take k tokens)"
  let ?post = "map type (drop (Suc k) tokens)"
  from assms(1) have "tokens = take k tokens @ tokens ! k # drop (Suc k) tokens"
    by (simp add: id_take_nth_drop [symmetric])
  then have "map type tokens = map type (take k tokens @ tokens ! k # drop (Suc k) tokens)"
    by simp
  with assms(2) have sp: "map type tokens = ?pre @ TOKEN_LOOP_END # ?post"
    by simp
  from assms(3) have "unmatched_close 0 ?pre = None" "open_at_end 0 ?pre = 0"
    by (simp_all add: balanced_iff)
  then have "unmatched_close 0 (?pre @ TOKEN_LOOP_END # ?post) = Some (length ?pre)"
    by (simp add: unmatched_close_append)
  with assms(1) have "unmatched_close 0 (map type tokens) = Some k"
    by (simp only: sp) simp
  then have "parse_outcome tokens 0 False = Inl (UnmatchedClose (pos (tokens ! k)))"
    by (simp add: parse_outcome_def)
  then show ?thesis
    by (rule parseTokens_error)
qed

lemma lex_src_before_close:
  assumes "CHR 0x00 \<notin> set pre" and "length pre < 2147483648"
  shows "\<exists>rest. lex_src (pre @ CHR '']'' # post) =
    lex_src pre @ \<lparr>type = TOKEN_LOOP_END, pos = int (length pre)\<rparr> # rest"
proof -
  have "lex_from 0 (pre @ CHR '']'' # post) =
      lex_from 0 pre @ lex_from (0 + int (length pre)) (CHR '']'' # post)"
    using assms by (intro lex_from_append) simp_all
  then show ?thesis
    by (simp add: lex_src_def classify_def)
qed

text \<open>
  C1. When the loop of the parser is at a closing bracket and is not inside a loop, the
  parse ends with the unmatched-close error that carries the \<open>pos\<close> of that token. For a
  whole token sequence: a closing bracket that follows a balanced prefix is reported with its
  \<open>pos\<close>. The diagnostic of the error is the line
  \<^verbatim>\<open>Error: Unmatched ']' at position \<close> followed by the decimal digits of that \<open>pos\<close>.
  For a whole source: when a closing bracket follows a prefix with balanced brackets (of fewer
  than \<open>2^31\<close> bytes, none of them zero), the run prints nothing on the standard output,
  prints the diagnostic with the byte offset of that bracket on the standard error stream, and
  ends with the failure status. The source \<open>]\<close> fails with the error at offset 0.
\<close>

theorem unmatched_close_reported:
  "(index < length tokens \<and> type (tokens ! index) = TOKEN_LOOP_END \<longrightarrow>
      parseLevel_while tokens index nodes False = Inl (UnmatchedClose (pos (tokens ! index)))) \<and>
   (k < length tokens \<and> type (tokens ! k) = TOKEN_LOOP_END \<and>
    balanced (map type (take k tokens)) \<longrightarrow>
      parseTokens tokens = Inl (UnmatchedClose (pos (tokens ! k)))) \<and>
   diagnostic (UnmatchedClose p) = ''Error: Unmatched ']' at position '' @ show_int p @ ''\<newline>'' \<and>
   (0 \<le> p \<longrightarrow> int (decimal_value (show_int p)) = p) \<and>
   (CHR 0x00 \<notin> set pre \<and> length pre < 2147483648 \<and> balanced (map type (lex_src pre)) \<longrightarrow>
      transpile (pre @ CHR '']'' # post) =
        \<lparr>stdout = [],
         stderr = ''Error: Unmatched ']' at position '' @ show_int (int (length pre)) @ ''\<newline>'',
         status = EXIT_FAILURE\<rparr>) \<and>
   parseTokens (lex_src '']'') = Inl (UnmatchedClose 0) \<and>
   stderr (transpile '']'') = ''Error: Unmatched ']' at position 0\<newline>''"
proof (intro conjI impI)
  assume "index < length tokens \<and> type (tokens ! index) = TOKEN_LOOP_END"
  then show "parseLevel_while tokens index nodes False =
      Inl (UnmatchedClose (pos (tokens ! index)))"
    by (simp add: parseLevel_while_close)
next
  assume "k < length tokens \<and> type (tokens ! k) = TOKEN_LOOP_END \<and>
    balanced (map type (take k tokens))"
  then show "parseTokens tokens = Inl (UnmatchedClose (pos (tokens ! k)))"
    by (simp add: parseTokens_unmatched_close)
next
  show "diagnostic (UnmatchedClose p) =
      ''Error: Unmatched ']' at position '' @ show_int p @ ''\<newline>''"
    by simp
next
  assume "0 \<le> p"
  then show "int (decimal_value (show_int p)) = p"
    by (rule decimal_value_show_int)
next
  assume a: "CHR 0x00 \<notin> set pre \<and> length pre < 2147483648 \<and>
    balanced (map type (lex_src pre))"
  let ?tokens = "lex_src (pre @ CHR '']'' # post)"
  let ?k = "length (lex_src pre)"
  from a lex_src_before_close [of pre post] obtain rest where
    toks: "?tokens = lex_src pre @ \<lparr>type = TOKEN_LOOP_END, pos = int (length pre)\<rparr> # rest"
    by blast
  then have "?k < length ?tokens" "type (?tokens ! ?k) = TOKEN_LOOP_END"
    "pos (?tokens ! ?k) = int (length pre)" "take ?k ?tokens = lex_src pre"
    by simp_all
  with a have "parseTokens ?tokens = Inl (UnmatchedClose (int (length pre)))"
    using parseTokens_unmatched_close [of ?k ?tokens] by simp
  then show "transpile (pre @ CHR '']'' # post) =
        \<lparr>stdout = [],
         stderr = ''Error: Unmatched ']' at position '' @ show_int (int (length pre)) @ ''\<newline>'',
         status = EXIT_FAILURE\<rparr>"
    by (simp add: transpile_def)
next
  show p0: "parseTokens (lex_src '']'') = Inl (UnmatchedClose 0)"
    by (simp add: lex_close parseTokens_def parseLevel_def parseLevel_while_close)
  show "stderr (transpile '']'') = ''Error: Unmatched ']' at position 0\<newline>''"
    by (simp add: transpile_def p0 show_int_def show_nat_digit digit_char_def)
qed

theorem unmatched_close_reported_witness:
  "(2::nat) < length (lex_src ''[]]+'') \<and> type (lex_src ''[]]+'' ! 2) = TOKEN_LOOP_END \<and>
   balanced (map type (take 2 (lex_src ''[]]+''))) \<and>
   parseTokens (lex_src ''[]]+'') = Inl (UnmatchedClose 2) \<and>
   parseLevel_while (lex_src ''[]]+'') 2 [ASTNode TOKEN_LOOP_START 0 (Some []) 0] False =
     Inl (UnmatchedClose 2) \<and>
   CHR 0x00 \<notin> set ''[]'' \<and> length ''[]'' < 2147483648 \<and> balanced (map type (lex_src ''[]'')) \<and>
   transpile (''[]'' @ CHR '']'' # ''+'') =
     \<lparr>stdout = [], stderr = ''Error: Unmatched ']' at position 2\<newline>'', status = 1\<rparr> \<and>
   (0::int) \<le> 2 \<and> int (decimal_value (show_int 2)) = 2"
proof -
  have toks: "lex_src ''[]]+'' =
    [\<lparr>type = TOKEN_LOOP_START, pos = 0\<rparr>, \<lparr>type = TOKEN_LOOP_END, pos = 1\<rparr>,
     \<lparr>type = TOKEN_LOOP_END, pos = 2\<rparr>, \<lparr>type = TOKEN_PLUS, pos = 3\<rparr>]"
    by (simp add: lex_src_def classify_def int32_def)
  have h: "(2::nat) < length (lex_src ''[]]+'') \<and> type (lex_src ''[]]+'' ! 2) = TOKEN_LOOP_END \<and>
    balanced (map type (take 2 (lex_src ''[]]+'')))"
    by (simp add: toks balanced_def nested_def numeral_2_eq_2 upt_rec)
  have hs: "CHR 0x00 \<notin> set ''[]'' \<and> length ''[]'' < 2147483648 \<and>
    balanced (map type (lex_src ''[]''))"
    by (simp add: lex_open_close balanced_def nested_def upt_rec)
  have hp: "(0::int) \<le> 2"
    by simp
  note inst = unmatched_close_reported [where tokens = "lex_src ''[]]+''" and k = 2
      and index = 2 and nodes = "[ASTNode TOKEN_LOOP_START 0 (Some []) 0]"
      and pre = "''[]''" and post = "''+''" and p = 2]
  from inst h
  have r1: "parseTokens (lex_src ''[]]+'') = Inl (UnmatchedClose (pos (lex_src ''[]]+'' ! 2)))"
    by blast
  from inst h
  have r2: "parseLevel_while (lex_src ''[]]+'') 2 [ASTNode TOKEN_LOOP_START 0 (Some []) 0] False =
      Inl (UnmatchedClose (pos (lex_src ''[]]+'' ! 2)))"
    by blast
  from inst hs
  have "transpile (''[]'' @ CHR '']'' # ''+'') =
     \<lparr>stdout = [],
      stderr = ''Error: Unmatched ']' at position '' @ show_int (int (length ''[]'')) @ ''\<newline>'',
      status = EXIT_FAILURE\<rparr>"
    by blast
  then have r3: "transpile (''[]'' @ CHR '']'' # ''+'') =
     \<lparr>stdout = [], stderr = ''Error: Unmatched ']' at position 2\<newline>'', status = 1\<rparr>"
    by (simp add: EXIT_FAILURE_def show_int_def show_nat_digit digit_char_def)
  from inst hp have r4: "int (decimal_value (show_int 2)) = 2"
    by blast
  from r1 r2 have "parseTokens (lex_src ''[]]+'') = Inl (UnmatchedClose 2)"
    "parseLevel_while (lex_src ''[]]+'') 2 [ASTNode TOKEN_LOOP_START 0 (Some []) 0] False =
      Inl (UnmatchedClose 2)"
    by (simp_all add: toks)
  with h hs hp r3 r4 show ?thesis
    by blast
qed

text \<open>
  C4. When the token stream ends while the loop of the parser is inside a loop, the result
  is the unmatched-open error, and every enclosing level passes that error on. For a whole
  token sequence: when no prefix closes more loops than it opens and the sequence opens more
  loops than it closes, the parse ends with the unmatched-open error. The source \<open>[+\<close>
  fails so, with a non-zero status and nothing on the standard output.
\<close>

theorem unmatched_open_reported:
  "(\<not> index < length tokens \<longrightarrow>
      parseLevel_while tokens index nodes True = Inl UnmatchedOpen) \<and>
   (index < length tokens \<and> type (tokens ! index) = TOKEN_LOOP_START \<and>
    parseLevel_while tokens (index + 1) [] True = Inl e \<longrightarrow>
      parseLevel_while tokens index nodes insideLoop = Inl e) \<and>
   (nested (map type tokens) \<and>
    count_list (map type tokens) TOKEN_LOOP_END < count_list (map type tokens) TOKEN_LOOP_START \<longrightarrow>
      parseTokens tokens = Inl UnmatchedOpen) \<and>
   parseTokens (lex_src ''[+'') = Inl UnmatchedOpen \<and>
   transpile ''[+'' =
     \<lparr>stdout = [], stderr = ''Error: Unmatched '[' detected\<newline>'', status = EXIT_FAILURE\<rparr> \<and>
   EXIT_FAILURE \<noteq> 0"
proof (intro conjI impI)
  assume "\<not> index < length tokens"
  then show "parseLevel_while tokens index nodes True = Inl UnmatchedOpen"
    by (simp add: parseLevel_while_end)
next
  assume "index < length tokens \<and> type (tokens ! index) = TOKEN_LOOP_START \<and>
    parseLevel_while tokens (index + 1) [] True = Inl e"
  then show "parseLevel_while tokens index nodes insideLoop = Inl e"
    by (simp add: parseLevel_while_open)
next
  assume a: "nested (map type tokens) \<and>
    count_list (map type tokens) TOKEN_LOOP_END < count_list (map type tokens) TOKEN_LOOP_START"
  then have none: "unmatched_close 0 (map type tokens) = None"
    by (simp add: nested_unmatched_close)
  from open_at_end_count [OF none] a have "0 < open_at_end 0 (map type tokens)"
    by simp
  with none have "parse_outcome tokens 0 False = Inl UnmatchedOpen"
    by (simp add: parse_outcome_def)
  then show "parseTokens tokens = Inl UnmatchedOpen"
    by (rule parseTokens_error)
next
  show p: "parseTokens (lex_src ''[+'') = Inl UnmatchedOpen"
    by (simp add: lex_open_plus parseTokens_def parseLevel_def parseLevel_while_open
        parseLevel_while_prim parseLevel_while_end is_primitive_def run_length_def)
  show "transpile ''[+'' =
     \<lparr>stdout = [], stderr = ''Error: Unmatched '[' detected\<newline>'', status = EXIT_FAILURE\<rparr>"
    by (simp add: transpile_def p)
  show "EXIT_FAILURE \<noteq> 0"
    by (simp add: EXIT_FAILURE_def)
qed

theorem unmatched_open_reported_witness:
  "nested (map type (lex_src ''[[-]'')) \<and>
   count_list (map type (lex_src ''[[-]'')) TOKEN_LOOP_END
     < count_list (map type (lex_src ''[[-]'')) TOKEN_LOOP_START \<and>
   parseTokens (lex_src ''[[-]'') = Inl UnmatchedOpen \<and>
   \<not> (2::nat) < length (lex_src ''[+'') \<and>
   parseLevel_while (lex_src ''[+'') 2 [ASTNode TOKEN_PLUS 1 None 0] True = Inl UnmatchedOpen \<and>
   parseLevel_while (lex_src ''[+'') 0 [] False = Inl UnmatchedOpen"
proof -
  have toks: "lex_src ''[[-]'' =
    [\<lparr>type = TOKEN_LOOP_START, pos = 0\<rparr>, \<lparr>type = TOKEN_LOOP_START, pos = 1\<rparr>,
     \<lparr>type = TOKEN_MINUS, pos = 2\<rparr>, \<lparr>type = TOKEN_LOOP_END, pos = 3\<rparr>]"
    by (simp add: lex_src_def classify_def int32_def)
  have h: "nested (map type (lex_src ''[[-]'')) \<and>
    count_list (map type (lex_src ''[[-]'')) TOKEN_LOOP_END
      < count_list (map type (lex_src ''[[-]'')) TOKEN_LOOP_START"
    by (simp add: toks nested_def upt_rec)
  have h2: "\<not> (2::nat) < length (lex_src ''[+'')"
    by (simp add: lex_open_plus)
  note inst = unmatched_open_reported [where tokens = "lex_src ''[[-]''"]
  from inst h have r1: "parseTokens (lex_src ''[[-]'') = Inl UnmatchedOpen"
    by blast
  from unmatched_open_reported
    [where tokens = "lex_src ''[+''" and index = 2 and nodes = "[ASTNode TOKEN_PLUS 1 None 0]"] h2
  have r2: "parseLevel_while (lex_src ''[+'') 2 [ASTNode TOKEN_PLUS 1 None 0] True
      = Inl UnmatchedOpen"
    by blast
  have inner: "parseLevel_while (lex_src ''[+'') (0 + 1) [] True = Inl UnmatchedOpen"
    using r2 by (simp add: lex_open_plus parseLevel_while_prim is_primitive_def run_length_def
        numeral_2_eq_2)
  have h3: "(0::nat) < length (lex_src ''[+'') \<and> type (lex_src ''[+'' ! 0) = TOKEN_LOOP_START"
    by (simp add: lex_open_plus)
  from unmatched_open_reported
    [where tokens = "lex_src ''[+''" and index = 0 and nodes = "[]" and e = UnmatchedOpen
      and insideLoop = False] h3 inner
  have r3: "parseLevel_while (lex_src ''[+'') 0 [] False = Inl UnmatchedOpen"
    by blast
  from h r1 h2 r2 r3 show ?thesis
    by blast
qed

subsection \<open>The parser: balanced input\<close>










subsection \<open>The generator on the program tree\<close>

lemma print_indent_3: "print_indent 3 = ''            ''"
  by (simp add: print_indent_def numeral_3_eq_3)

lemma generate_code_in_sequence:
  assumes "x \<in> set nodes"
  shows "\<exists>b a. generate_code nodes (int (length nodes)) lvl = b @ generate_code [x] 1 lvl @ a"
proof -
  from assms obtain xs ys where "nodes = xs @ x # ys"
    by (auto simp: in_set_conv_decomp)
  then have "generate_code nodes (int (length nodes)) lvl =
      generate_code xs (int (length xs)) lvl @ generate_code [x] 1 lvl @
      generate_code ys (int (length ys)) lvl"
    by (simp only: generate_code_around)
  then show ?thesis
    by blast
qed

lemma generate_code_loop:
  assumes "ntype node = TOKEN_LOOP_START" and "children node = Some cs"
    and "numChildren node = int (length cs)"
  shows "generate_code [node] 1 lvl =
    print_indent lvl @ ''while (*ptr) {\<newline>'' @
    generate_code cs (int (length cs)) (lvl + 1) @
    print_indent lvl @ ''}\<newline>''"
  using assms by (simp add: generate_code_single)

lemma placed_emitted:
  "well_shaped x \<Longrightarrow> (node, lvl) \<in> set (placed l x) \<Longrightarrow>
   \<exists>b a. generate_code [x] 1 l = b @ generate_code [node] 1 lvl @ a"
proof (induction x arbitrary: l rule: well_shaped.induct)
  case (1 t c n)
  then have "node = ASTNode t c None n" "lvl = l"
    by simp_all
  then have "generate_code [ASTNode t c None n] 1 l = [] @ generate_code [node] 1 lvl @ []"
    by simp
  then show ?case
    by blast
next
  case (2 t c cs n)
  let ?x = "ASTNode t c (Some cs) n"
  show ?case
  proof (cases "(node, lvl) = (?x, l)")
    case True
    then have "generate_code [?x] 1 l = [] @ generate_code [node] 1 lvl @ []"
      by simp
    then show ?thesis
      by blast
  next
    case False
    with "2.prems"(2) obtain child where
      child: "child \<in> set cs" "(node, lvl) \<in> set (placed (l + 1) child)"
      by auto
    from "2.prems"(1) child(1) have ws: "well_shaped child"
      by (auto simp: list_all_iff)
    from "2.prems"(1) have shape: "t = TOKEN_LOOP_START" "n = int (length cs)"
      by simp_all
    from "2.IH" [OF child(1) ws child(2)] obtain b a where
      inner: "generate_code [child] 1 (l + 1) = b @ generate_code [node] 1 lvl @ a"
      by auto
    from generate_code_in_sequence [OF child(1), of "l + 1"] obtain b' a' where
      body: "generate_code cs (int (length cs)) (l + 1) =
        b' @ generate_code [child] 1 (l + 1) @ a'"
      by blast
    have "generate_code [?x] 1 l =
        print_indent l @ ''while (*ptr) {\<newline>'' @
        generate_code cs (int (length cs)) (l + 1) @ print_indent l @ ''}\<newline>''"
      using shape by (intro generate_code_loop) simp_all
    then have "generate_code [?x] 1 l =
        (print_indent l @ ''while (*ptr) {\<newline>'' @ b' @ b) @ generate_code [node] 1 lvl @
        (a @ a' @ print_indent l @ ''}\<newline>'')"
      by (simp only: body inner append_assoc)
    then show ?thesis
      by blast
  qed
qed

lemma tree_placed_emitted:
  assumes "list_all well_shaped ast" and "(node, lvl) \<in> set (tree_placed l ast)"
  shows "\<exists>b a. generate_code ast (int (length ast)) l = b @ generate_code [node] 1 lvl @ a"
proof -
  from assms(2) obtain x where x: "x \<in> set ast" "(node, lvl) \<in> set (placed l x)"
    by (auto simp: tree_placed_def)
  from assms(1) x(1) have "well_shaped x"
    by (simp add: list_all_iff)
  from placed_emitted [OF this x(2)] obtain b a where
    "generate_code [x] 1 l = b @ generate_code [node] 1 lvl @ a"
    by blast
  moreover from generate_code_in_sequence [OF x(1), of l] obtain b' a' where
    "generate_code ast (int (length ast)) l = b' @ generate_code [x] 1 l @ a'"
    by blast
  ultimately have "generate_code ast (int (length ast)) l =
      (b' @ b) @ generate_code [node] 1 lvl @ (a @ a')"
    by simp
  then show ?thesis
    by blast
qed

text \<open>
  C5. Wherever a Write node stands in a node sequence, the emitter prints for it one
  \<^verbatim>\<open>putchar(*ptr);\<close> statement when its count is 1, and when its count is greater than 1
  a \<^verbatim>\<open>for\<close> loop from 0 below the count, written as a decimal literal, around one
  \<^verbatim>\<open>putchar(*ptr);\<close>. A Read node is treated the same way with \<^verbatim>\<open>*ptr = getchar();\<close>.
  The literal denotes the count of the node. A loop node in a sequence is printed as
  \<^verbatim>\<open>while (*ptr) {\<close>, the text of its body one level deeper, and \<^verbatim>\<open>}\<close>. In the text
  printed for a tree that the parser returns, every Write node and every Read node of the
  tree, at any depth, has its statement (count 1) or its counted loop (count above 1), at
  the indentation level of its place in the tree.
\<close>

theorem generate_code_write_read:
  "(ntype node = TOKEN_OUTPUT \<and> count node = 1 \<longrightarrow>
      generate_code (before @ node # after) (int (length (before @ node # after))) lvl =
        generate_code before (int (length before)) lvl @
        (print_indent lvl @ ''putchar(*ptr);\<newline>'') @
        generate_code after (int (length after)) lvl) \<and>
   (ntype node = TOKEN_OUTPUT \<and> 1 < count node \<longrightarrow>
      generate_code (before @ node # after) (int (length (before @ node # after))) lvl =
        generate_code before (int (length before)) lvl @
        (print_indent lvl @
         ''for (int i = 0; i < '' @ show_int (count node) @ ''; i++) {\<newline>'' @
         print_indent (lvl + 1) @ ''putchar(*ptr);\<newline>'' @
         print_indent lvl @ ''}\<newline>'') @
        generate_code after (int (length after)) lvl) \<and>
   (ntype node = TOKEN_INPUT \<and> count node = 1 \<longrightarrow>
      generate_code (before @ node # after) (int (length (before @ node # after))) lvl =
        generate_code before (int (length before)) lvl @
        (print_indent lvl @ ''*ptr = getchar();\<newline>'') @
        generate_code after (int (length after)) lvl) \<and>
   (ntype node = TOKEN_INPUT \<and> 1 < count node \<longrightarrow>
      generate_code (before @ node # after) (int (length (before @ node # after))) lvl =
        generate_code before (int (length before)) lvl @
        (print_indent lvl @
         ''for (int i = 0; i < '' @ show_int (count node) @ ''; i++) {\<newline>'' @
         print_indent (lvl + 1) @ ''*ptr = getchar();\<newline>'' @
         print_indent lvl @ ''}\<newline>'') @
        generate_code after (int (length after)) lvl) \<and>
   (1 < count node \<longrightarrow> int (decimal_value (show_int (count node))) = count node) \<and>
   (ntype node = TOKEN_LOOP_START \<and> children node = Some cs \<and>
    numChildren node = int (length cs) \<longrightarrow>
      generate_code (before @ node # after) (int (length (before @ node # after))) lvl =
        generate_code before (int (length before)) lvl @
        (print_indent lvl @ ''while (*ptr) {\<newline>'' @
         generate_code cs (int (length cs)) (lvl + 1) @
         print_indent lvl @ ''}\<newline>'') @
        generate_code after (int (length after)) lvl) \<and>
   (parseTokens tokens = Inr ast \<and> (node, lvl) \<in> set (tree_placed 1 ast) \<and>
    ntype node = TOKEN_OUTPUT \<longrightarrow>
      (\<exists>b a. generate_code ast (int (length ast)) 1 =
         b @
         (if count node = 1 then print_indent lvl @ ''putchar(*ptr);\<newline>''
          else print_indent lvl @
            ''for (int i = 0; i < '' @ show_int (count node) @ ''; i++) {\<newline>'' @
            print_indent (lvl + 1) @ ''putchar(*ptr);\<newline>'' @
            print_indent lvl @ ''}\<newline>'') @
         a)) \<and>
   (parseTokens tokens = Inr ast \<and> (node, lvl) \<in> set (tree_placed 1 ast) \<and>
    ntype node = TOKEN_INPUT \<longrightarrow>
      (\<exists>b a. generate_code ast (int (length ast)) 1 =
         b @
         (if count node = 1 then print_indent lvl @ ''*ptr = getchar();\<newline>''
          else print_indent lvl @
            ''for (int i = 0; i < '' @ show_int (count node) @ ''; i++) {\<newline>'' @
            print_indent (lvl + 1) @ ''*ptr = getchar();\<newline>'' @
            print_indent lvl @ ''}\<newline>'') @
         a))"
proof -
  have seq: "generate_code (before @ node # after) (int (length (before @ node # after))) lvl =
      generate_code before (int (length before)) lvl @ generate_code [node] 1 lvl @
      generate_code after (int (length after)) lvl"
    by (rule generate_code_around)
  have deep: "\<exists>b a. generate_code ast (int (length ast)) 1 = b @ generate_code [node] 1 lvl @ a"
    if "parseTokens tokens = Inr ast" "(node, lvl) \<in> set (tree_placed 1 ast)"
    using parseTokens_result [OF that(1)] that(2) by (intro tree_placed_emitted) simp_all
  have out: "generate_code [node] 1 lvl =
      (if count node = 1 then print_indent lvl @ ''putchar(*ptr);\<newline>''
       else print_indent lvl @
         ''for (int i = 0; i < '' @ show_int (count node) @ ''; i++) {\<newline>'' @
         print_indent (lvl + 1) @ ''putchar(*ptr);\<newline>'' @
         print_indent lvl @ ''}\<newline>'')"
    if "ntype node = TOKEN_OUTPUT"
    using that by (simp add: generate_code_single)
  have inp: "generate_code [node] 1 lvl =
      (if count node = 1 then print_indent lvl @ ''*ptr = getchar();\<newline>''
       else print_indent lvl @
         ''for (int i = 0; i < '' @ show_int (count node) @ ''; i++) {\<newline>'' @
         print_indent (lvl + 1) @ ''*ptr = getchar();\<newline>'' @
         print_indent lvl @ ''}\<newline>'')"
    if "ntype node = TOKEN_INPUT"
    using that by (simp add: generate_code_single)
  have loop: "generate_code [node] 1 lvl =
      print_indent lvl @ ''while (*ptr) {\<newline>'' @
      generate_code cs (int (length cs)) (lvl + 1) @ print_indent lvl @ ''}\<newline>''"
    if "ntype node = TOKEN_LOOP_START" "children node = Some cs"
      "numChildren node = int (length cs)"
    using that by (rule generate_code_loop)
  show ?thesis
  proof (intro conjI impI)
    assume "parseTokens tokens = Inr ast \<and> (node, lvl) \<in> set (tree_placed 1 ast) \<and>
      ntype node = TOKEN_OUTPUT"
    then have a: "parseTokens tokens = Inr ast" "(node, lvl) \<in> set (tree_placed 1 ast)"
      "ntype node = TOKEN_OUTPUT"
      by simp_all
    from deep [OF a(1,2)] show "\<exists>b a. generate_code ast (int (length ast)) 1 =
         b @
         (if count node = 1 then print_indent lvl @ ''putchar(*ptr);\<newline>''
          else print_indent lvl @
            ''for (int i = 0; i < '' @ show_int (count node) @ ''; i++) {\<newline>'' @
            print_indent (lvl + 1) @ ''putchar(*ptr);\<newline>'' @
            print_indent lvl @ ''}\<newline>'') @
         a"
      by (simp only: out [OF a(3)])
  next
    assume "parseTokens tokens = Inr ast \<and> (node, lvl) \<in> set (tree_placed 1 ast) \<and>
      ntype node = TOKEN_INPUT"
    then have a: "parseTokens tokens = Inr ast" "(node, lvl) \<in> set (tree_placed 1 ast)"
      "ntype node = TOKEN_INPUT"
      by simp_all
    from deep [OF a(1,2)] show "\<exists>b a. generate_code ast (int (length ast)) 1 =
         b @
         (if count node = 1 then print_indent lvl @ ''*ptr = getchar();\<newline>''
          else print_indent lvl @
            ''for (int i = 0; i < '' @ show_int (count node) @ ''; i++) {\<newline>'' @
            print_indent (lvl + 1) @ ''*ptr = getchar();\<newline>'' @
            print_indent lvl @ ''}\<newline>'') @
         a"
      by (simp only: inp [OF a(3)])
  qed (simp_all only: seq, simp_all add: out inp loop decimal_value_show_int)
qed

lemma parse_example_io_loop:
  "parseTokens (lex_src ''[..,]'') =
     Inr [ASTNode TOKEN_LOOP_START 0
            (Some [ASTNode TOKEN_OUTPUT 2 None 0, ASTNode TOKEN_INPUT 1 None 0]) 2]"
  by (simp add: lex_src_def classify_def int32_def parseTokens_def parseLevel_def
      parseLevel_while_open parseLevel_while_prim parseLevel_while_close parseLevel_while_end
      is_primitive_def run_length_def)

theorem generate_code_write_read_witness:
  "ntype (ASTNode TOKEN_OUTPUT 3 None 0) = TOKEN_OUTPUT \<and>
   1 < count (ASTNode TOKEN_OUTPUT 3 None 0) \<and>
   generate_code [ASTNode TOKEN_OUTPUT 3 None 0] 1 1 =
     ''    for (int i = 0; i < 3; i++) {\<newline>        putchar(*ptr);\<newline>    }\<newline>'' \<and>
   int (decimal_value (show_int (count (ASTNode TOKEN_OUTPUT 3 None 0)))) = 3 \<and>
   ntype (ASTNode TOKEN_OUTPUT 1 None 0) = TOKEN_OUTPUT \<and>
   count (ASTNode TOKEN_OUTPUT 1 None 0) = 1 \<and>
   generate_code [ASTNode TOKEN_OUTPUT 1 None 0] 1 1 = ''    putchar(*ptr);\<newline>'' \<and>
   ntype (ASTNode TOKEN_INPUT 1 None 0) = TOKEN_INPUT \<and>
   count (ASTNode TOKEN_INPUT 1 None 0) = 1 \<and>
   generate_code [ASTNode TOKEN_INPUT 1 None 0] 1 1 = ''    *ptr = getchar();\<newline>'' \<and>
   ntype (ASTNode TOKEN_INPUT 2 None 0) = TOKEN_INPUT \<and>
   1 < count (ASTNode TOKEN_INPUT 2 None 0) \<and>
   generate_code [ASTNode TOKEN_INPUT 2 None 0] 1 1 =
     ''    for (int i = 0; i < 2; i++) {\<newline>        *ptr = getchar();\<newline>    }\<newline>'' \<and>
   generate_code [ASTNode TOKEN_LOOP_START 0 (Some [ASTNode TOKEN_OUTPUT 1 None 0]) 1] 1 1 =
     ''    while (*ptr) {\<newline>        putchar(*ptr);\<newline>    }\<newline>'' \<and>
   parseTokens (lex_src ''[..,]'') =
     Inr [ASTNode TOKEN_LOOP_START 0
            (Some [ASTNode TOKEN_OUTPUT 2 None 0, ASTNode TOKEN_INPUT 1 None 0]) 2] \<and>
   (ASTNode TOKEN_OUTPUT 2 None 0, 2) \<in> set (tree_placed 1
     [ASTNode TOKEN_LOOP_START 0
        (Some [ASTNode TOKEN_OUTPUT 2 None 0, ASTNode TOKEN_INPUT 1 None 0]) 2]) \<and>
   (ASTNode TOKEN_INPUT 1 None 0, 2) \<in> set (tree_placed 1
     [ASTNode TOKEN_LOOP_START 0
        (Some [ASTNode TOKEN_OUTPUT 2 None 0, ASTNode TOKEN_INPUT 1 None 0]) 2]) \<and>
   (\<exists>b a. generate_code
      [ASTNode TOKEN_LOOP_START 0
         (Some [ASTNode TOKEN_OUTPUT 2 None 0, ASTNode TOKEN_INPUT 1 None 0]) 2] 1 1 =
      b @ ''        for (int i = 0; i < 2; i++) {\<newline>            putchar(*ptr);\<newline>        }\<newline>'' @ a) \<and>
   (\<exists>b a. generate_code
      [ASTNode TOKEN_LOOP_START 0
         (Some [ASTNode TOKEN_OUTPUT 2 None 0, ASTNode TOKEN_INPUT 1 None 0]) 2] 1 1 =
      b @ ''        *ptr = getchar();\<newline>'' @ a)"
proof -
  let ?ast = "[ASTNode TOKEN_LOOP_START 0
     (Some [ASTNode TOKEN_OUTPUT 2 None 0, ASTNode TOKEN_INPUT 1 None 0]) 2]"
  have h1: "ntype (ASTNode TOKEN_OUTPUT 3 None 0) = TOKEN_OUTPUT \<and>
            1 < count (ASTNode TOKEN_OUTPUT 3 None 0)"
    by simp
  have h2: "ntype (ASTNode TOKEN_OUTPUT 1 None 0) = TOKEN_OUTPUT \<and>
            count (ASTNode TOKEN_OUTPUT 1 None 0) = 1"
    by simp
  have h3: "ntype (ASTNode TOKEN_INPUT 1 None 0) = TOKEN_INPUT \<and>
            count (ASTNode TOKEN_INPUT 1 None 0) = 1"
    by simp
  have h4: "ntype (ASTNode TOKEN_INPUT 2 None 0) = TOKEN_INPUT \<and>
            1 < count (ASTNode TOKEN_INPUT 2 None 0)"
    by simp
  have h5: "ntype (ASTNode TOKEN_LOOP_START 0 (Some [ASTNode TOKEN_OUTPUT 1 None 0]) 1)
              = TOKEN_LOOP_START \<and>
            children (ASTNode TOKEN_LOOP_START 0 (Some [ASTNode TOKEN_OUTPUT 1 None 0]) 1)
              = Some [ASTNode TOKEN_OUTPUT 1 None 0] \<and>
            numChildren (ASTNode TOKEN_LOOP_START 0 (Some [ASTNode TOKEN_OUTPUT 1 None 0]) 1)
              = int (length [ASTNode TOKEN_OUTPUT 1 None 0])"
    by simp
  have h6: "(ASTNode TOKEN_OUTPUT 2 None 0, 2) \<in> set (tree_placed 1 ?ast)"
    by (simp add: tree_placed_def)
  have h7: "(ASTNode TOKEN_INPUT 1 None 0, 2) \<in> set (tree_placed 1 ?ast)"
    by (simp add: tree_placed_def)
  note digits = show_int_def show_nat_digit digit_char_def
  from generate_code_write_read
    [where node = "ASTNode TOKEN_OUTPUT 3 None 0" and before = "[]" and after = "[]" and lvl = 1]
    h1
  have r1: "generate_code [ASTNode TOKEN_OUTPUT 3 None 0] 1 1 =
     ''    for (int i = 0; i < 3; i++) {\<newline>        putchar(*ptr);\<newline>    }\<newline>''"
    and r1': "int (decimal_value (show_int (count (ASTNode TOKEN_OUTPUT 3 None 0)))) = 3"
    by (simp_all add: generate_code_Nil print_indent_1 print_indent_2 digits)
  from generate_code_write_read
    [where node = "ASTNode TOKEN_OUTPUT 1 None 0" and before = "[]" and after = "[]" and lvl = 1]
    h2
  have r2: "generate_code [ASTNode TOKEN_OUTPUT 1 None 0] 1 1 = ''    putchar(*ptr);\<newline>''"
    by (simp add: generate_code_Nil print_indent_1)
  from generate_code_write_read
    [where node = "ASTNode TOKEN_INPUT 1 None 0" and before = "[]" and after = "[]" and lvl = 1]
    h3
  have r3: "generate_code [ASTNode TOKEN_INPUT 1 None 0] 1 1 = ''    *ptr = getchar();\<newline>''"
    by (simp add: generate_code_Nil print_indent_1)
  from generate_code_write_read
    [where node = "ASTNode TOKEN_INPUT 2 None 0" and before = "[]" and after = "[]" and lvl = 1]
    h4
  have r4: "generate_code [ASTNode TOKEN_INPUT 2 None 0] 1 1 =
     ''    for (int i = 0; i < 2; i++) {\<newline>        *ptr = getchar();\<newline>    }\<newline>''"
    by (simp add: generate_code_Nil print_indent_1 print_indent_2 digits)
  from generate_code_write_read
    [where node = "ASTNode TOKEN_LOOP_START 0 (Some [ASTNode TOKEN_OUTPUT 1 None 0]) 1"
      and cs = "[ASTNode TOKEN_OUTPUT 1 None 0]" and before = "[]" and after = "[]" and lvl = 1]
    h5
  have r5: "generate_code [ASTNode TOKEN_LOOP_START 0 (Some [ASTNode TOKEN_OUTPUT 1 None 0]) 1] 1 1 =
     ''    while (*ptr) {\<newline>        putchar(*ptr);\<newline>    }\<newline>''"
    by (simp add: generate_code_Nil generate_code_single print_indent_1 print_indent_2)
  from generate_code_write_read
    [where tokens = "lex_src ''[..,]''" and ast = ?ast and node = "ASTNode TOKEN_OUTPUT 2 None 0"
      and lvl = 2] parse_example_io_loop h6
  have r6: "\<exists>b a. generate_code ?ast 1 1 =
      b @ ''        for (int i = 0; i < 2; i++) {\<newline>            putchar(*ptr);\<newline>        }\<newline>'' @ a"
    by (simp add: print_indent_2 print_indent_3 digits)
  from generate_code_write_read
    [where tokens = "lex_src ''[..,]''" and ast = ?ast and node = "ASTNode TOKEN_INPUT 1 None 0"
      and lvl = 2] parse_example_io_loop h7
  have r7: "\<exists>b a. generate_code ?ast 1 1 = b @ ''        *ptr = getchar();\<newline>'' @ a"
    by (simp add: print_indent_2)
  from h1 r1 r1' h2 r2 h3 r3 h4 r4 r5 parse_example_io_loop h6 h7 r6 r7 show ?thesis
    by blast
qed

subsection \<open>The driver on a parse error\<close>

lemma parseTokens_fails_iff:
  "(\<exists>e. parseTokens tokens = Inl e) \<longleftrightarrow> \<not> balanced (map type tokens)"
proof -
  have "(\<exists>n. parse_outcome tokens 0 False = Inr n) \<longleftrightarrow> balanced (map type tokens)"
    by (auto simp: parse_outcome_def balanced_iff split: option.splits)
  moreover have "(\<exists>n. parse_outcome tokens 0 False = Inr n) \<longleftrightarrow>
      (\<exists>ast. parseTokens tokens = Inr ast)"
    using parseTokens_outcome [of tokens]
    by (cases "parseTokens tokens"; cases "parse_outcome tokens 0 False") auto
  moreover have "(\<exists>ast. parseTokens tokens = Inr ast) \<longleftrightarrow> \<not> (\<exists>e. parseTokens tokens = Inl e)"
    by (cases "parseTokens tokens") auto
  ultimately show ?thesis
    by blast
qed

text \<open>
  C7. When the parser stops with an unmatched bracket, the run prints nothing on the
  standard output, prints the diagnostic of that error on the standard error stream, and
  ends with a status that is not 0. This holds from the source text on, and for \<open>main\<close> with
  the text it has read from the standard input or from the file named by \<open>argv[1]\<close>: the
  whole content of a stream that can seek. (From a stream that cannot seek no byte reaches
  the parser, so that no parse error arises there.) The parser stops so exactly when the
  brackets of the tokens are not balanced; when they are balanced, nothing is printed on the
  standard error stream and the status is 0.
\<close>

theorem parse_error_no_output:
  "(parseTokens (lex_src source) = Inl e \<longrightarrow>
      transpile source = \<lparr>stdout = [], stderr = diagnostic e, status = EXIT_FAILURE\<rparr>) \<and>
   (parseTokens (lex_src (read_source stdin)) = Inl e \<and> \<not> length argv > 1 \<longrightarrow>
      main argv fopen stdin = \<lparr>stdout = [], stderr = diagnostic e, status = EXIT_FAILURE\<rparr>) \<and>
   (parseTokens (lex_src (read_source fp)) = Inl e \<and> length argv > 1 \<and>
    fopen (argv ! 1) = Inr fp \<longrightarrow>
      main argv fopen stdin = \<lparr>stdout = [], stderr = diagnostic e, status = EXIT_FAILURE\<rparr>) \<and>
   (seekable fp \<longrightarrow> read_source fp = content fp) \<and>
   (\<not> balanced (map type (lex_src source)) \<longrightarrow>
      stdout (transpile source) = [] \<and> stderr (transpile source) \<noteq> [] \<and>
      status (transpile source) \<noteq> 0) \<and>
   (balanced (map type (lex_src source)) \<longrightarrow>
      stderr (transpile source) = [] \<and> status (transpile source) = 0) \<and>
   EXIT_FAILURE \<noteq> 0 \<and> diagnostic e \<noteq> []"
proof -
  have nonempty: "diagnostic e' \<noteq> []" for e'
    by (cases e') simp_all
  have bad: "stdout (transpile source) = [] \<and> stderr (transpile source) \<noteq> [] \<and>
      status (transpile source) \<noteq> 0"
    if "\<not> balanced (map type (lex_src source))"
  proof -
    from that parseTokens_fails_iff [of "lex_src source"] obtain e' where
      "parseTokens (lex_src source) = Inl e'"
      by blast
    then show ?thesis
      by (simp add: transpile_def EXIT_FAILURE_def nonempty)
  qed
  have good: "stderr (transpile source) = [] \<and> status (transpile source) = 0"
    if "balanced (map type (lex_src source))"
  proof -
    from that parseTokens_fails_iff [of "lex_src source"] obtain ast where
      "parseTokens (lex_src source) = Inr ast"
      by (cases "parseTokens (lex_src source)") auto
    then show ?thesis
      by (simp add: transpile_def)
  qed
  have "seekable fp \<longrightarrow> read_source fp = content fp"
    by (simp add: read_source_def ftell_end_def)
  with bad good nonempty [of e] show ?thesis
    by (simp add: main_def transpile_def EXIT_FAILURE_def)
qed

theorem parse_error_no_output_witness:
  "parseTokens (lex_src '']'') = Inl (UnmatchedClose 0) \<and>
   transpile '']'' =
     \<lparr>stdout = [], stderr = ''Error: Unmatched ']' at position 0\<newline>'', status = 1\<rparr> \<and>
   seekable \<lparr>content = ''[+'', seekable = True\<rparr> \<and>
   read_source \<lparr>content = ''[+'', seekable = True\<rparr> = ''[+'' \<and>
   parseTokens (lex_src ''[+'') = Inl UnmatchedOpen \<and>
   main [''brainfuck2c''] (\<lambda>name. Inl []) \<lparr>content = ''[+'', seekable = True\<rparr> =
     \<lparr>stdout = [], stderr = ''Error: Unmatched '[' detected\<newline>'', status = 1\<rparr> \<and>
   main [''brainfuck2c'', ''x.bf''] (\<lambda>name. Inr \<lparr>content = ''[+'', seekable = True\<rparr>)
       \<lparr>content = [], seekable = False\<rparr> =
     \<lparr>stdout = [], stderr = ''Error: Unmatched '[' detected\<newline>'', status = 1\<rparr> \<and>
   \<not> balanced (map type (lex_src ''[+'')) \<and>
   stdout (transpile ''[+'') = [] \<and> status (transpile ''[+'') \<noteq> 0 \<and>
   balanced (map type (lex_src ''[]'')) \<and>
   stderr (transpile ''[]'') = [] \<and> status (transpile ''[]'') = 0"
proof -
  let ?f = "\<lparr>content = ''[+'', seekable = True\<rparr>"
  have h1: "parseTokens (lex_src '']'') = Inl (UnmatchedClose 0)"
    by (simp add: lex_src_def classify_def int32_def parseTokens_def parseLevel_def
        parseLevel_while_close)
  have h2: "parseTokens (lex_src ''[+'') = Inl UnmatchedOpen"
    by (simp add: lex_src_def classify_def int32_def parseTokens_def parseLevel_def
        parseLevel_while_open parseLevel_while_prim parseLevel_while_end is_primitive_def
        run_length_def)
  have s: "seekable ?f"
    by simp
  from parse_error_no_output [where fp = ?f] s have rs: "read_source ?f = ''[+''"
    by simp
  have a2: "\<not> length [''brainfuck2c''] > 1"
    by simp
  have a3: "length [''brainfuck2c'', ''x.bf''] > 1 \<and>
            (\<lambda>name. Inr ?f) ([''brainfuck2c'', ''x.bf''] ! 1) = (Inr ?f :: string + FILE)"
    by simp
  have nb: "\<not> balanced (map type (lex_src ''[+''))"
    by (simp add: lex_src_def classify_def int32_def balanced_def)
  have b: "balanced (map type (lex_src ''[]''))"
    by (simp add: lex_src_def classify_def int32_def balanced_def nested_def upt_rec)
  from parse_error_no_output [where source = "'']''" and e = "UnmatchedClose 0"] h1
  have r1: "transpile '']'' =
     \<lparr>stdout = [], stderr = ''Error: Unmatched ']' at position 0\<newline>'', status = 1\<rparr>"
    by (simp add: EXIT_FAILURE_def show_int_def show_nat_digit digit_char_def)
  from parse_error_no_output [where e = UnmatchedOpen and stdin = ?f and
      argv = "[''brainfuck2c'']" and fopen = "\<lambda>name. Inl []"] h2 a2 rs
  have r2: "main [''brainfuck2c''] (\<lambda>name. Inl []) ?f =
     \<lparr>stdout = [], stderr = ''Error: Unmatched '[' detected\<newline>'', status = 1\<rparr>"
    by (simp add: EXIT_FAILURE_def)
  from parse_error_no_output [where fp = ?f and e = UnmatchedOpen and
      stdin = "\<lparr>content = [], seekable = False\<rparr>" and
      argv = "[''brainfuck2c'', ''x.bf'']" and fopen = "\<lambda>name. Inr ?f"] h2 a3 rs
  have r3: "main [''brainfuck2c'', ''x.bf''] (\<lambda>name. Inr ?f) \<lparr>content = [], seekable = False\<rparr> =
     \<lparr>stdout = [], stderr = ''Error: Unmatched '[' detected\<newline>'', status = 1\<rparr>"
    by (simp add: EXIT_FAILURE_def)
  from parse_error_no_output [where source = "''[+''"] nb
  have r4: "stdout (transpile ''[+'') = [] \<and> status (transpile ''[+'') \<noteq> 0"
    by blast
  from parse_error_no_output [where source = "''[]''"] b
  have r5: "stderr (transpile ''[]'') = [] \<and> status (transpile ''[]'') = 0"
    by blast
  from h1 r1 s rs h2 r2 r3 nb r4 b r5 show ?thesis
    by blast
qed

end
